theory Spec2Isabelle
  imports Main "HOL-Library.Sublist"
begin

section \<open>JavaScript strings\<close>

text \<open>
  A JavaScript string is a sequence of UTF-16 code units. The bullet character U+2022 that
  the answer renderers look for does not fit into a byte, so a string is modelled as the
  list of its code units; \<open>js\<close> turns an ASCII literal into such a list.
\<close>

type_synonym jsstring = "nat list"

definition js :: "string \<Rightarrow> jsstring" where
  "js s = map of_char s"

abbreviation NL :: nat where "NL \<equiv> 10"
abbreviation SP :: nat where "SP \<equiv> 32"
abbreviation BULLET :: nat where "BULLET \<equiv> 8226"

text \<open>The code units that \<open>String.prototype.trim\<close> strips (WhiteSpace and LineTerminator).\<close>

definition is_ws :: "nat \<Rightarrow> bool" where
  "is_ws c = (c = 9 \<or> c = 10 \<or> c = 11 \<or> c = 12 \<or> c = 13 \<or> c = 32 \<or> c = 160 \<or> c = 5760
     \<or> (8192 \<le> c \<and> c \<le> 8202) \<or> c = 8232 \<or> c = 8233 \<or> c = 8239 \<or> c = 8287
     \<or> c = 12288 \<or> c = 65279)"

definition js_trim :: "jsstring \<Rightarrow> jsstring" where
  "js_trim s = rev (dropWhile is_ws (rev (dropWhile is_ws s)))"

text \<open>\<open>s.split('\n')\<close>: never empty, \<open>''.split('\n')\<close> is \<open>['']\<close>.\<close>

fun split_nl :: "jsstring \<Rightarrow> jsstring list" where
  "split_nl [] = [[]]"
| "split_nl (c # cs) =
     (if c = NL then [] # split_nl cs
      else (case split_nl cs of l # ls \<Rightarrow> (c # l) # ls | [] \<Rightarrow> [[c]]))"

text \<open>\<open>xs.join(sep)\<close>.\<close>

fun js_join :: "jsstring \<Rightarrow> jsstring list \<Rightarrow> jsstring" where
  "js_join sep [] = []"
| "js_join sep [x] = x"
| "js_join sep (x # y # ys) = x @ sep @ js_join sep (y # ys)"

text \<open>\<open>s.replace(pat, rep)\<close> with a string pattern: the first occurrence only.\<close>

fun replace_first :: "jsstring \<Rightarrow> jsstring \<Rightarrow> jsstring \<Rightarrow> jsstring" where
  "replace_first pat rep [] = (if pat = [] then rep else [])"
| "replace_first pat rep (c # cs) =
     (if prefix pat (c # cs) then rep @ drop (length pat) (c # cs)
      else c # replace_first pat rep cs)"

text \<open>
  \<open>s.replace(/pat/g, rep)\<close> for a regular expression that is a literal, non-empty text:
  every occurrence, scanning from the left, the scan resuming behind each match.
\<close>

function replace_all :: "jsstring \<Rightarrow> jsstring \<Rightarrow> jsstring \<Rightarrow> jsstring" where
  "replace_all pat rep s =
     (if s = [] then []
      else if pat \<noteq> [] \<and> prefix pat s then rep @ replace_all pat rep (drop (length pat) s)
      else hd s # replace_all pat rep (tl s))"
  by pat_completeness auto
termination
  by (relation "measure (\<lambda>(pat, rep, s). length s)") auto

declare replace_all.simps [simp del]

section \<open>The rules API hook (useGolfRulesAPI / useColumbiaRulesAPI)\<close>

text \<open>
  The repository holds three variants of the application: \<open>GeneralApp\<close> (src/App.tsx),
  and two versions of the Columbia application, \<open>Columbia0\<close> (unnamed/part_000) and
  \<open>Columbia1\<close> (unnamed/part_001). The hooks differ between them, so every handler takes
  the variant.

  The page runs on one thread: a click, an event of the recognition object, a timer and
  the settling of a promise are handled one after the other, and React has rendered in
  between, so every handler reads the state that the handler before it has left. A
  handler is modelled as a function from that state to the next one.
\<close>

datatype variant = GeneralApp | Columbia0 | Columbia1

text \<open>
  The parsed response. No handler computes with \<open>response_time\<close>; it is kept as a whole
  number.
\<close>

record rules_response =
  success :: bool
  answer :: jsstring
  question :: jsstring
  club_id :: jsstring
  rule_type :: jsstring
  rule_numbers :: "jsstring list"
  confidence :: jsstring
  response_time :: nat
  error :: "jsstring option"

text \<open>The JSON body of \<open>POST /api/ask\<close>.\<close>

record ask_body =
  body_question :: jsstring
  body_club_id :: jsstring
  body_fast_mode :: bool

text \<open>
  One invocation of the asynchronous \<open>askQuestion\<close> is suspended at \<open>await fetch(...)\<close>, then
  at \<open>await response.json()\<close>, then it is over. \<open>timeoutId\<close> is the time at which the pending
  \<open>setTimeout(() => controller.abort(), 10000)\<close> fires, if there is one; \<open>signal\<close> says
  whether the fetch was given the controller's signal.
\<close>

datatype call_phase = AwaitFetch | AwaitJson | Settled

record call =
  body :: ask_body
  signal :: bool
  timeoutId :: "nat option"
  phase :: call_phase

text \<open>
  The state of the hook (\<open>useState\<close>) and the list of the fetches it has issued; the position
  of a call in \<open>calls\<close> identifies it. \<open>Columbia0\<close> has no \<open>requestInProgress\<close>: there the
  field stays \<open>False\<close>.
\<close>

record api =
  loading :: bool
  response :: "rules_response option"
  apiError :: "jsstring option"
  requestInProgress :: bool
  calls :: "call list"

definition api_init :: api where
  "api_init = \<lparr>loading = False, response = None, apiError = None,
     requestInProgress = False, calls = []\<rparr>"

definition CLUB_ID :: jsstring where
  "CLUB_ID = js ''columbia_cc''"

text \<open>The synchronous part of \<open>askQuestion(question, fastMode)\<close>, called at time \<open>t\<close> (ms).\<close>

definition askQuestion :: "variant \<Rightarrow> nat \<Rightarrow> jsstring \<Rightarrow> bool \<Rightarrow> api \<Rightarrow> api" where
  "askQuestion v t q fastMode s =
     (if v = Columbia0 then
        s\<lparr>loading := True, apiError := None, response := None,
          calls := calls s @ [\<lparr>body = \<lparr>body_question = q, body_club_id = CLUB_ID,
                                        body_fast_mode = fastMode\<rparr>,
                               signal = False, timeoutId = None, phase = AwaitFetch\<rparr>]\<rparr>
      else if requestInProgress s \<or> loading s then s
      else
        s\<lparr>requestInProgress := True, loading := True, apiError := None,
          calls := calls s @ [\<lparr>body = \<lparr>body_question = q, body_club_id = CLUB_ID,
                                        body_fast_mode = fastMode\<rparr>,
                               signal = True, timeoutId = Some (t + 10000),
                               phase = AwaitFetch\<rparr>]\<rparr>)"

datatype js_error = AbortError | OtherError

definition catch_block :: "variant \<Rightarrow> js_error \<Rightarrow> api \<Rightarrow> api" where
  "catch_block v err s =
     (if v = Columbia0 then
        s\<lparr>apiError := Some (js ''Network error - please check your connection'')\<rparr>
      else if err = AbortError then s\<lparr>apiError := Some (js ''Request timed out'')\<rparr>
      else s\<lparr>apiError := Some (js ''Network error. Please check your connection.'')\<rparr>)"

definition finally_block :: "variant \<Rightarrow> api \<Rightarrow> api" where
  "finally_block v s =
     (if v = Columbia0 then s\<lparr>loading := False\<rparr>
      else s\<lparr>loading := False, requestInProgress := False\<rparr>)"

text \<open>\<open>data.error || fallback\<close>: a missing and an empty message are both falsy.\<close>

definition or_else :: "jsstring option \<Rightarrow> jsstring \<Rightarrow> jsstring" where
  "or_else e fallback = (case e of None \<Rightarrow> fallback | Some m \<Rightarrow> if m = [] then fallback else m)"

text \<open>The code behind \<open>const data = await response.json()\<close>.\<close>

definition on_data :: "variant \<Rightarrow> rules_response \<Rightarrow> api \<Rightarrow> api" where
  "on_data v d s =
     (if success d then
        (if v = Columbia0 then s\<lparr>response := Some d\<rparr>
         else s\<lparr>response := Some d, apiError := None\<rparr>)
      else if v = Columbia0 then
        s\<lparr>apiError := Some (or_else (error d) (js ''Failed to get rules information''))\<rparr>
      else s\<lparr>apiError := Some (or_else (error d) (js ''Failed to get response''))\<rparr>)"

definition set_call :: "nat \<Rightarrow> call \<Rightarrow> api \<Rightarrow> api" where
  "set_call i c s = s\<lparr>calls := (calls s)[i := c]\<rparr>"

definition in_phase :: "call_phase \<Rightarrow> nat \<Rightarrow> api \<Rightarrow> bool" where
  "in_phase p i s = (i < length (calls s) \<and> phase (calls s ! i) = p)"

text \<open>
  What the network does to call \<open>i\<close>. The fetch promise resolves when the response headers
  are there (\<open>clearTimeout(timeoutId)\<close> follows at once) or rejects; then the body parses
  as JSON, or \<open>response.json()\<close> rejects or the code behind it throws (\<open>JsonRejected\<close>: an
  exception that is no \<open>AbortError\<close>). An event that does not fit the phase of the call
  cannot happen and changes nothing.
\<close>

datatype api_event =
    Ask jsstring bool
  | FetchResolved nat
  | FetchRejected nat
  | JsonParsed nat rules_response
  | JsonRejected nat

definition fetch_resolved :: "nat \<Rightarrow> api \<Rightarrow> api" where
  "fetch_resolved i s =
     (if in_phase AwaitFetch i s
      then set_call i ((calls s ! i)\<lparr>timeoutId := None, phase := AwaitJson\<rparr>) s
      else s)"

definition settle :: "variant \<Rightarrow> nat \<Rightarrow> (api \<Rightarrow> api) \<Rightarrow> api \<Rightarrow> api" where
  "settle v i k s = finally_block v (k (set_call i ((calls s ! i)\<lparr>phase := Settled\<rparr>) s))"

definition fetch_rejected :: "variant \<Rightarrow> nat \<Rightarrow> api \<Rightarrow> api" where
  "fetch_rejected v i s =
     (if in_phase AwaitFetch i s then settle v i (catch_block v OtherError) s else s)"

definition json_parsed :: "variant \<Rightarrow> nat \<Rightarrow> rules_response \<Rightarrow> api \<Rightarrow> api" where
  "json_parsed v i d s =
     (if in_phase AwaitJson i s then settle v i (on_data v d) s else s)"

definition json_rejected :: "variant \<Rightarrow> nat \<Rightarrow> api \<Rightarrow> api" where
  "json_rejected v i s =
     (if in_phase AwaitJson i s then settle v i (catch_block v OtherError) s else s)"

text \<open>
  The abort timer of call \<open>i\<close> fires: \<open>controller.abort()\<close>. A fetch that is still pending
  on that signal rejects with an \<open>AbortError\<close>; on a call that is over, nothing happens.
\<close>

definition abort_timer :: "variant \<Rightarrow> nat \<Rightarrow> api \<Rightarrow> api" where
  "abort_timer v i s =
     (let s' = set_call i ((calls s ! i)\<lparr>timeoutId := None\<rparr>) s
      in if signal (calls s ! i) \<and> phase (calls s ! i) \<noteq> Settled
         then settle v i (catch_block v AbortError) s'
         else s')"

definition timer_due :: "nat \<Rightarrow> nat option \<Rightarrow> bool" where
  "timer_due t d = (case d of None \<Rightarrow> False | Some x \<Rightarrow> x \<le> t)"

text \<open>All abort timers due at time \<open>t\<close> fire, oldest call first.\<close>

fun fire_abort_timers :: "variant \<Rightarrow> nat \<Rightarrow> nat list \<Rightarrow> api \<Rightarrow> api" where
  "fire_abort_timers v t [] s = s"
| "fire_abort_timers v t (i # is) s =
     fire_abort_timers v t is
       (if timer_due t (timeoutId (calls s ! i)) then abort_timer v i s else s)"

definition api_advance :: "variant \<Rightarrow> nat \<Rightarrow> api \<Rightarrow> api" where
  "api_advance v t s = fire_abort_timers v t [0 ..< length (calls s)] s"

fun api_handle :: "variant \<Rightarrow> nat \<Rightarrow> api_event \<Rightarrow> api \<Rightarrow> api" where
  "api_handle v t (Ask q fastMode) s = askQuestion v t q fastMode s"
| "api_handle v t (FetchResolved i) s = fetch_resolved i s"
| "api_handle v t (FetchRejected i) s = fetch_rejected v i s"
| "api_handle v t (JsonParsed i d) s = json_parsed v i d s"
| "api_handle v t (JsonRejected i) s = json_rejected v i s"

text \<open>
  The event loop: the events come with the time (ms) at which they are handled; a timer
  that is due by then has fired before.
\<close>

fun api_run :: "variant \<Rightarrow> (nat \<times> api_event) list \<Rightarrow> api \<Rightarrow> api" where
  "api_run v [] s = s"
| "api_run v ((t, e) # es) s = api_run v es (api_handle v t e (api_advance v t s))"

text \<open>The calls that have reached the fetch and are not over.\<close>

definition in_flight :: "api \<Rightarrow> nat" where
  "in_flight s = length (filter (\<lambda>c. phase c \<noteq> Settled) (calls s))"

text \<open>
  What the page shows of the hook: the response component renders the spinner while
  \<open>loading\<close> and the answer otherwise; the banner renders a truthy \<open>error\<close>.
\<close>

definition shown_answer :: "api \<Rightarrow> rules_response option" where
  "shown_answer s = (if loading s then None else response s)"

definition shown_error :: "api \<Rightarrow> jsstring option" where
  "shown_error s = (case apiError s of None \<Rightarrow> None | Some m \<Rightarrow> if m = [] then None else Some m)"

section \<open>The voice recognition hook and the voice input (useVoiceRecognition, VoiceInput)\<close>

text \<open>
  The state of the hook and of the component that uses it: the \<open>useState\<close> cells
  \<open>isListening\<close>, \<open>transcript\<close>, \<open>voiceError\<close> (named \<open>error\<close> in two variants) and
  \<open>hasSubmitted\<close>; the variables \<open>accumulatedTranscript\<close> and \<open>submitTimeout\<close> that the
  event handlers close over; \<open>supported\<close>, which says that \<open>recognitionRef.current\<close> is there.
  \<open>submitTimeout\<close> holds the time (ms) at which the pending timer fires; a timer that
  has fired or was cleared is \<open>None\<close>.

  Of the browser's recognition object the model keeps \<open>started\<close> (\<open>start()\<close> was called and
  no end or error event has fired since; \<open>start()\<close> throws in that state) and \<open>stopCalls\<close>,
  the number of calls of \<open>stop()\<close>. \<open>dispatched\<close> lists the texts handed to \<open>onTranscript\<close>
  (\<open>handleQuestion\<close>), oldest first.
\<close>

record voice =
  supported :: bool
  isListening :: bool
  transcript :: jsstring
  voiceError :: "jsstring option"
  hasSubmitted :: bool
  accumulatedTranscript :: jsstring
  submitTimeout :: "nat option"
  started :: bool
  stopCalls :: nat
  dispatched :: "jsstring list"

definition voice_init :: "bool \<Rightarrow> voice" where
  "voice_init ok = \<lparr>supported = ok, isListening = False, transcript = [], voiceError = None,
     hasSubmitted = False, accumulatedTranscript = [], submitTimeout = None,
     started = False, stopCalls = 0, dispatched = []\<rparr>"

definition onstart :: "variant \<Rightarrow> voice \<Rightarrow> voice" where
  "onstart v s =
     (if v = Columbia1 then s\<lparr>isListening := True, voiceError := None, accumulatedTranscript := []\<rparr>
      else s\<lparr>isListening := True, voiceError := None\<rparr>)"

text \<open>
  The loop of \<open>onresult\<close> over \<open>event.results\<close> from \<open>event.resultIndex\<close> on; a result is
  the transcript of its first alternative and its \<open>isFinal\<close> flag. The pair is
  \<open>(finalTranscript, interimTranscript)\<close>.
\<close>

fun scan_results :: "(jsstring \<times> bool) list \<Rightarrow> jsstring \<times> jsstring \<Rightarrow> jsstring \<times> jsstring" where
  "scan_results [] acc = acc"
| "scan_results ((tr, isFinal) # rs) (fin, interim) =
     scan_results rs (if isFinal then (fin @ tr, interim) else (fin, interim @ tr))"

definition onresult :: "nat \<Rightarrow> nat \<Rightarrow> (jsstring \<times> bool) list \<Rightarrow> voice \<Rightarrow> voice" where
  "onresult t resultIndex results s =
     (let (finalTranscript, interimTranscript) = scan_results (drop resultIndex results) ([], []);
          acc = (if finalTranscript \<noteq> [] then accumulatedTranscript s @ finalTranscript @ [SP]
                 else accumulatedTranscript s);
          currentTranscript = acc @ interimTranscript
      in if js_trim currentTranscript \<noteq> []
         then s\<lparr>accumulatedTranscript := acc, transcript := js_trim currentTranscript,
                submitTimeout := Some (t + 5000)\<rparr>
         else s\<lparr>accumulatedTranscript := acc\<rparr>)"

text \<open>The function given to \<open>setTimeout(..., 5000)\<close>.\<close>

definition timer_callback :: "variant \<Rightarrow> voice \<Rightarrow> voice" where
  "timer_callback v s =
     (if v = Columbia0 then s\<lparr>stopCalls := Suc (stopCalls s)\<rparr>
      else s\<lparr>accumulatedTranscript := [], stopCalls := Suc (stopCalls s)\<rparr>)"

definition onend :: "variant \<Rightarrow> voice \<Rightarrow> voice" where
  "onend v s =
     (if v = Columbia0 then s\<lparr>isListening := False, submitTimeout := None\<rparr>
      else s\<lparr>isListening := False\<rparr>)"

definition onerror :: "variant \<Rightarrow> jsstring \<Rightarrow> voice \<Rightarrow> voice" where
  "onerror v reason s =
     (if v = Columbia0
      then s\<lparr>voiceError := Some (js ''Speech recognition error: '' @ reason), isListening := False\<rparr>
      else s\<lparr>voiceError := Some (js ''Voice recognition error: '' @ reason), isListening := False\<rparr>)"

text \<open>
  \<open>startListening\<close>. When \<open>start()\<close> throws, \<open>GeneralApp\<close> and \<open>Columbia1\<close> catch the exception
  and set the error; \<open>Columbia0\<close> has no \<open>try\<close>, the click handler ends there, and the state
  updates made before stay.
\<close>

definition startListening :: "variant \<Rightarrow> voice \<Rightarrow> voice" where
  "startListening v s =
     (if supported s \<and> \<not> isListening s then
        (let s1 = s\<lparr>transcript := [], voiceError := None\<rparr>
         in if started s1 then
              (if v = Columbia0 then s1
               else s1\<lparr>voiceError := Some (js ''Failed to start voice recognition'')\<rparr>)
            else s1\<lparr>started := True\<rparr>)
      else s)"

definition stopListening :: "voice \<Rightarrow> voice" where
  "stopListening s =
     (if supported s \<and> isListening s then s\<lparr>stopCalls := Suc (stopCalls s)\<rparr> else s)"

text \<open>
  \<open>handleStartListening\<close>; in \<open>Columbia0\<close> it also selects the voice tab, which is not
  part of this state.
\<close>

definition handleStartListening :: "variant \<Rightarrow> voice \<Rightarrow> voice" where
  "handleStartListening v s = startListening v (s\<lparr>hasSubmitted := False\<rparr>)"

text \<open>The effect that hands the transcript on; it runs after every render.\<close>

definition submit_effect :: "voice \<Rightarrow> voice" where
  "submit_effect s =
     (if transcript s \<noteq> [] \<and> \<not> isListening s \<and> \<not> hasSubmitted s
      then s\<lparr>hasSubmitted := True, dispatched := dispatched s @ [transcript s]\<rparr>
      else s)"

text \<open>
  The events of a voice session: a click on the microphone button
  (\<open>onClick={isListening ? stopListening : handleStartListening}\<close>) and the events of the
  recognition object. The end and error events also put the object out of the started state.
\<close>

datatype voice_event =
    MicClick
  | RecStart
  | RecResult nat "(jsstring \<times> bool) list"
  | RecEnd
  | RecError jsstring

fun voice_handle :: "variant \<Rightarrow> nat \<Rightarrow> voice_event \<Rightarrow> voice \<Rightarrow> voice" where
  "voice_handle v t MicClick s = (if isListening s then stopListening s else handleStartListening v s)"
| "voice_handle v t RecStart s = onstart v s"
| "voice_handle v t (RecResult resultIndex results) s = onresult t resultIndex results s"
| "voice_handle v t RecEnd s = onend v (s\<lparr>started := False\<rparr>)"
| "voice_handle v t (RecError reason) s = onerror v reason (s\<lparr>started := False\<rparr>)"

text \<open>The quiet-period timer fires when it is due.\<close>

definition voice_advance :: "variant \<Rightarrow> nat \<Rightarrow> voice \<Rightarrow> voice" where
  "voice_advance v t s =
     (if timer_due t (submitTimeout s) then timer_callback v (s\<lparr>submitTimeout := None\<rparr>) else s)"

definition voice_step :: "variant \<Rightarrow> nat \<Rightarrow> voice_event \<Rightarrow> voice \<Rightarrow> voice" where
  "voice_step v t e s = submit_effect (voice_handle v t e (voice_advance v t s))"

fun voice_run :: "variant \<Rightarrow> (nat \<times> voice_event) list \<Rightarrow> voice \<Rightarrow> voice" where
  "voice_run v [] s = s"
| "voice_run v ((t, e) # es) s = voice_run v es (voice_step v t e s)"

section \<open>The answer renderers (RulesResponse, ColumbiaRulesResponse)\<close>

text \<open>
  The text each component hands to \<open>dangerouslySetInnerHTML\<close>. \<open>GeneralApp\<close>:
  \<open>answer.replace(/\n/g, '<br>').replace(/\<bullet>/g, '&bull;')\<close>.
\<close>

definition format_general :: "jsstring \<Rightarrow> jsstring" where
  "format_general a = replace_all [BULLET] (js ''&bull;'') (replace_all [NL] (js ''<br>'') a)"

text \<open>Both Columbia variants: the function mapped over the lines.\<close>

definition bullet_open :: jsstring where
  \<open>bullet_open = js ''<div style="display: flex; margin-bottom: 2px; padding-left: 0;"><span style="margin-right: 8px;">&bull;</span><span>''\<close>

definition bullet_close :: jsstring where
  "bullet_close = js ''</span></div>''"

definition is_bullet_line :: "jsstring \<Rightarrow> bool" where
  "is_bullet_line line = prefix [BULLET, SP] (js_trim line)"

definition format_line :: "jsstring \<Rightarrow> jsstring" where
  "format_line line =
     (if is_bullet_line line
      then bullet_open @ replace_first [BULLET, SP] [] line @ bullet_close
      else line)"

definition br_between_bullets :: jsstring where
  \<open>br_between_bullets = js ''</div><br><div style="display: flex''\<close>

definition no_br_between_bullets :: jsstring where
  \<open>no_br_between_bullets = js ''</div><div style="display: flex''\<close>

definition format_columbia :: "jsstring \<Rightarrow> jsstring" where
  "format_columbia a =
     replace_all br_between_bullets no_br_between_bullets
       (js_join (js ''<br>'') (map format_line (split_nl a)))"

definition format_answer :: "variant \<Rightarrow> jsstring \<Rightarrow> jsstring" where
  "format_answer v a = (if v = GeneralApp then format_general a else format_columbia a)"

section \<open>Notions used in the statements\<close>

subsection \<open>Recognition events\<close>

text \<open>
  The text an event carries: its final results from \<open>resultIndex\<close> on, concatenated, and its
  interim results likewise. \<open>segment\<close> is what the event appends to the accumulated text.
\<close>

definition final_text :: "nat \<Rightarrow> (jsstring \<times> bool) list \<Rightarrow> jsstring" where
  "final_text i rs = concat (map fst (filter snd (drop i rs)))"

definition interim_text :: "nat \<Rightarrow> (jsstring \<times> bool) list \<Rightarrow> jsstring" where
  "interim_text i rs = concat (map fst (filter (\<lambda>r. \<not> snd r) (drop i rs)))"

definition segment :: "nat \<Rightarrow> (jsstring \<times> bool) list \<Rightarrow> jsstring" where
  "segment i rs = (if final_text i rs = [] then [] else final_text i rs @ [SP])"

text \<open>A sequence of result events, each with its time, handled one after the other.\<close>

fun onresults :: "(nat \<times> nat \<times> (jsstring \<times> bool) list) list \<Rightarrow> voice \<Rightarrow> voice" where
  "onresults [] s = s"
| "onresults ((t, i, rs) # es) s = onresults es (onresult t i rs s)"

definition result_events ::
  "(nat \<times> nat \<times> (jsstring \<times> bool) list) list \<Rightarrow> (nat \<times> voice_event) list" where
  "result_events es = map (\<lambda>(t, i, rs). (t, RecResult i rs)) es"


text \<open>
  The transcript as the specification words it: the finalized segments joined by a single
  space, in arrival order, concatenated with the latest interim text.
\<close>

definition claimed_transcript :: "(nat \<times> nat \<times> (jsstring \<times> bool) list) list \<Rightarrow> jsstring" where
  "claimed_transcript es =
     js_join [SP] (concat (map (\<lambda>(t, i, rs). map fst (filter snd (drop i rs))) es))
       @ (if es = [] then [] else interim_text (fst (snd (last es))) (snd (snd (last es))))"

subsection \<open>The request gate\<close>

text \<open>
  The in-flight marker is clear, and a submission of \<open>q\<close> at time \<open>t\<close> goes through to the
  fetch. (\<open>Columbia0\<close> has \<open>loading\<close> only.)
\<close>

definition cleared :: "variant \<Rightarrow> nat \<Rightarrow> jsstring \<Rightarrow> bool \<Rightarrow> api \<Rightarrow> bool" where
  "cleared v t q fastMode s =
     (\<not> loading s \<and> (v = Columbia0 \<or> \<not> requestInProgress s)
      \<and> length (calls (askQuestion v t q fastMode s)) = Suc (length (calls s)))"

text \<open>
  The phases of the calls, and the invariant of the hooks that have the guard: the two
  markers agree, only the youngest call can be unsettled, and only while \<open>loading\<close> is set.
\<close>

definition phases :: "api \<Rightarrow> call_phase list" where
  "phases s = map phase (calls s)"

definition one_at_most :: "api \<Rightarrow> bool" where
  "one_at_most s = (requestInProgress s = loading s
     \<and> list_all (\<lambda>p. p = Settled) (butlast (phases s))
     \<and> (loading s \<or> list_all (\<lambda>p. p = Settled) (phases s)))"

subsection \<open>Example inputs\<close>

definition q_lost_ball :: jsstring where
  "q_lost_ball = js ''what is the rule for a lost ball''"

definition q_bunker :: jsstring where
  "q_bunker = js ''can I ground my club in a bunker''"

definition answer_lost_ball :: rules_response where
  "answer_lost_ball = \<lparr>success = True, answer = js ''Stroke and distance.'',
     question = q_lost_ball, club_id = js ''columbia_cc'', rule_type = js ''official'',
     rule_numbers = [js ''18.2''], confidence = js ''high'', response_time = 1, error = None\<rparr>"

text \<open>A voice session that has just started: the button was clicked and the start event came.\<close>

definition fresh_session :: "variant \<Rightarrow> voice" where
  "fresh_session v = voice_run v [(0, MicClick), (100, RecStart)] (voice_init True)"

definition lost_ball_results :: "(nat \<times> nat \<times> (jsstring \<times> bool) list) list" where
  "lost_ball_results = [(1000, 0, [(js ''lost'', False)]), (2000, 0, [(js ''lost ball'', True)])]"



text \<open>The answer text of the specification's formatting example.\<close>

definition bulleted_answer :: jsstring where
  "bulleted_answer = js ''line one'' @ [NL] @ [BULLET, SP] @ js ''item a'' @ [NL]
     @ [BULLET, SP] @ js ''item b'' @ [NL] @ js ''line two''"

subsection \<open>The rendered answer\<close>

text \<open>
  What \<open>RulesResponse\<close> makes of one code unit: a newline becomes a line break, a bullet
  the bullet entity, anything else stays.
\<close>

definition html_char :: "nat \<Rightarrow> jsstring" where
  "html_char c = (if c = NL then js ''<br>'' else if c = BULLET then js ''&bull;'' else [c])"

text \<open>
  The lines as \<open>ColumbiaRulesResponse\<close> is to lay them out: every line formatted, a line
  break between two neighbours unless both are bullet lines.
\<close>

fun layout :: "jsstring list \<Rightarrow> jsstring" where
  "layout [] = []"
| "layout [l] = format_line l"
| "layout (l # m # ls) =
     format_line l @ (if is_bullet_line l \<and> is_bullet_line m then [] else js ''<br>'')
       @ layout (m # ls)"

text \<open>A piece of markup: it starts with \<open><\<close> and ends with \<open>>\<close>.\<close>

definition is_tag :: "jsstring \<Rightarrow> bool" where
  "is_tag m = (m \<noteq> [] \<and> hd m = 60 \<and> last m = 62)"

text \<open>The text that opens a bullet item as far as the regular expression looks at it.\<close>

definition flex_div :: jsstring where
  \<open>flex_div = js ''<div style="display: flex''\<close>

text \<open>
  No occurrence of the pattern starts inside \<open>w\<close>, whatever follows \<open>w\<close>: the scan of
  \<open>replace_all\<close> copies such a text as it is.
\<close>

fun skippable :: "jsstring \<Rightarrow> jsstring \<Rightarrow> bool" where
  "skippable pat [] = True"
| "skippable pat (c # cs) =
     (\<not> prefix pat (c # cs) \<and> \<not> prefix (c # cs) pat \<and> skippable pat cs)"

text \<open>\<open>t\<close> is \<open>s\<close> with some of its line breaks \<open><br>\<close> taken out.\<close>

inductive deleted_br :: "jsstring \<Rightarrow> jsstring \<Rightarrow> bool" where
  nil: "deleted_br [] []"
| keep: "deleted_br s t \<Longrightarrow> deleted_br (c # s) (c # t)"
| cut: "deleted_br s t \<Longrightarrow> deleted_br (js ''<br>'' @ s) t"

text \<open>The lines of the formatting example, and an answer that holds markup.\<close>

definition bulleted_lines :: "jsstring list" where
  "bulleted_lines = [js ''line one'', [BULLET, SP] @ js ''item a'',
     [BULLET, SP] @ js ''item b'', js ''line two'']"

definition img_tag :: jsstring where
  "img_tag = js ''<img src=x onerror=alert(1)>''"

text \<open>An answer with a line break of its own between two blocks, and what becomes of it.\<close>

definition div_br_answer :: jsstring where
  \<open>div_br_answer = js ''one</div><br><div style="display: flex">two</div>''\<close>

definition div_br_rendered :: jsstring where
  \<open>div_br_rendered = js ''one</div><div style="display: flex">two</div>''\<close>

section \<open>Properties of the rules API hook\<close>

lemmas api_defs = askQuestion_def catch_block_def finally_block_def or_else_def on_data_def
  set_call_def in_phase_def fetch_resolved_def settle_def fetch_rejected_def json_parsed_def
  json_rejected_def abort_timer_def timer_due_def api_advance_def api_init_def in_flight_def
  shown_answer_def shown_error_def CLUB_ID_def

text \<open>
  Claim C6. For every submission that the gate let through, the in-flight marker is cleared
  when the call is over, on every exit path: the fetch rejects (network failure), the abort
  timer fires (timeout), the body parses (success, or a response with a false success flag),
  the body does not parse. After each of them the next submission is accepted.
\<close>

theorem marker_cleared_on_every_exit:
  "(in_phase AwaitFetch i s \<longrightarrow>
       cleared v t q fastMode (fetch_rejected v i s)
     \<and> (signal (calls s ! i) \<longrightarrow> cleared v t q fastMode (abort_timer v i s)))
   \<and> (in_phase AwaitJson j s' \<longrightarrow>
       cleared v t q fastMode (json_parsed v j d s')
     \<and> cleared v t q fastMode (json_rejected v j s'))"
  by (simp add: cleared_def api_defs Let_def)

theorem marker_cleared_on_every_exit_witness:
  "in_phase AwaitFetch 0 (api_run GeneralApp [(0, Ask q_lost_ball True)] api_init)
   \<and> signal (calls (api_run GeneralApp [(0, Ask q_lost_ball True)] api_init) ! 0)
   \<and> in_phase AwaitJson 0
        (api_run GeneralApp [(0, Ask q_lost_ball True), (300, FetchResolved 0)] api_init)
   \<and> cleared GeneralApp 9000 q_bunker True
        (fetch_rejected GeneralApp 0 (api_run GeneralApp [(0, Ask q_lost_ball True)] api_init))
   \<and> cleared GeneralApp 9000 q_bunker True
        (abort_timer GeneralApp 0 (api_run GeneralApp [(0, Ask q_lost_ball True)] api_init))
   \<and> cleared GeneralApp 9000 q_bunker True
        (json_parsed GeneralApp 0 answer_lost_ball
          (api_run GeneralApp [(0, Ask q_lost_ball True), (300, FetchResolved 0)] api_init))
   \<and> cleared GeneralApp 9000 q_bunker True
        (json_rejected GeneralApp 0
          (api_run GeneralApp [(0, Ask q_lost_ball True), (300, FetchResolved 0)] api_init))"
proof -
  let ?s = "api_run GeneralApp [(0, Ask q_lost_ball True)] api_init"
  let ?s' = "api_run GeneralApp [(0, Ask q_lost_ball True), (300, FetchResolved 0)] api_init"
  have h1: "in_phase AwaitFetch 0 ?s" by (simp add: api_defs)
  have h2: "signal (calls ?s ! 0)" by (simp add: api_defs)
  have h3: "in_phase AwaitJson 0 ?s'" by (simp add: api_defs)
  show ?thesis
    using marker_cleared_on_every_exit
      [of 0 ?s GeneralApp 9000 q_bunker True 0 ?s' answer_lost_ball] h1 h2 h3
    by blast
qed

text \<open>
  In \<open>GeneralApp\<close> and \<open>Columbia1\<close> a submission made while the marker is set changes
  nothing at all, and a submission that is accepted clears the error.
\<close>

lemma gate_rejects_while_in_flight:
  "v \<noteq> Columbia0 \<Longrightarrow> requestInProgress s \<or> loading s \<Longrightarrow> askQuestion v t q fastMode s = s"
  by (simp add: askQuestion_def)

lemma accepted_submission_clears_error:
  "v = Columbia0 \<or> \<not> (requestInProgress s \<or> loading s) \<Longrightarrow>
     apiError (askQuestion v t q fastMode s) = None \<and> loading (askQuestion v t q fastMode s)"
  by (auto simp: askQuestion_def)

lemma answer_lost_ball_success: "success answer_lost_ball"
  by (simp add: answer_lost_ball_def)

subsection \<open>At most one request in flight behind the guard\<close>

text \<open>
  In \<open>GeneralApp\<close> and \<open>Columbia1\<close>, whatever the events and their times, no more than
  one call is ever between its fetch and its end.
\<close>

lemma list_all_butlast: "list_all P xs \<Longrightarrow> list_all P (butlast xs)"
  by (induction xs) auto

lemma unsettled_is_last:
  "i < length xs \<Longrightarrow> \<not> P (xs ! i) \<Longrightarrow> list_all P (butlast xs) \<Longrightarrow> Suc i = length xs"
proof (induction xs arbitrary: i)
  case Nil
  then show ?case by simp
next
  case (Cons x xs)
  show ?case
  proof (cases xs)
    case Nil
    then show ?thesis using Cons.prems by simp
  next
    case (Cons y ys)
    then have b: "P x \<and> list_all P (butlast xs)" using Cons.prems by simp
    then obtain j where "i = Suc j" using Cons.prems by (cases i) auto
    then show ?thesis using Cons.IH[of j] Cons.prems b by simp
  qed
qed

lemma butlast_update_last:
  "Suc i = length xs \<Longrightarrow> butlast (xs[i := y]) = butlast xs"
  by (induction xs arbitrary: i) (auto split: nat.splits)

lemma settle_last:
  "Suc i = length xs \<Longrightarrow> list_all P (butlast xs) \<Longrightarrow> P y \<Longrightarrow> list_all P (xs[i := y])"
proof (induction xs arbitrary: i)
  case Nil
  then show ?case by simp
next
  case (Cons x xs)
  then show ?case by (cases xs; cases i) auto
qed

lemma phases_set_call: "phases (set_call i c s) = (phases s)[i := phase c]"
  by (simp add: phases_def set_call_def map_update)

lemma phases_same:
  "phase c = phase (calls s ! i) \<Longrightarrow> phases (set_call i c s) = phases s"
proof (cases "i < length (calls s)")
  case True
  assume "phase c = phase (calls s ! i)"
  then show ?thesis using True by (simp add: phases_set_call) (simp add: phases_def list_update_same_conv)
next
  case False
  then have "(calls s)[i := c] = calls s" by (simp add: list_update_beyond)
  then show ?thesis by (simp add: phases_def set_call_def)
qed

lemma one_at_most_init: "one_at_most api_init"
  by (simp add: one_at_most_def api_init_def phases_def)

lemma one_at_most_ask:
  "v \<noteq> Columbia0 \<Longrightarrow> one_at_most s \<Longrightarrow> one_at_most (askQuestion v t q f s)"
  by (auto simp: one_at_most_def askQuestion_def phases_def)

lemma unsettled_call:
  assumes "one_at_most s" "i < length (calls s)" "phase (calls s ! i) \<noteq> Settled"
  shows "Suc i = length (phases s)" and "loading s"
proof -
  have b: "list_all (\<lambda>p. p = Settled) (butlast (phases s))"
    using assms(1) by (simp add: one_at_most_def)
  have i: "i < length (phases s)" using assms(2) by (simp add: phases_def)
  have p: "phases s ! i \<noteq> Settled" using assms(2,3) by (simp add: phases_def)
  show "Suc i = length (phases s)" using unsettled_is_last[OF i p b] .
  show "loading s" using assms(1) i p by (auto simp: one_at_most_def list_all_length)
qed

lemma one_at_most_resolved:
  assumes "one_at_most s"
  shows "one_at_most (fetch_resolved i s)"
proof (cases "in_phase AwaitFetch i s")
  case False
  then show ?thesis using assms by (simp add: fetch_resolved_def)
next
  case True
  then have i: "i < length (calls s)" and p: "phase (calls s ! i) \<noteq> Settled"
    by (auto simp: in_phase_def)
  note u = unsettled_call[OF assms i p]
  have "one_at_most (set_call i ((calls s ! i)\<lparr>timeoutId := None, phase := AwaitJson\<rparr>) s)"
    using assms u
    by (simp add: one_at_most_def phases_set_call butlast_update_last) (simp add: set_call_def)
  then show ?thesis using True by (simp add: fetch_resolved_def)
qed

lemma one_at_most_settle:
  assumes "one_at_most s" "v \<noteq> Columbia0" "i < length (calls s)" "phase (calls s ! i) \<noteq> Settled"
    and k: "\<And>x. calls (k x) = calls x"
  shows "one_at_most (settle v i k s)"
proof -
  note u = unsettled_call[OF assms(1,3,4)]
  have b: "list_all (\<lambda>p. p = Settled) (butlast (phases s))"
    using assms(1) by (simp add: one_at_most_def)
  have all: "list_all (\<lambda>p. p = Settled) ((phases s)[i := Settled])"
    using settle_last[OF u(1) b] by simp
  have ph: "phases (settle v i k s) = (phases s)[i := Settled]"
    using assms(2) k by (simp add: settle_def finally_block_def phases_def set_call_def map_update)
  show ?thesis using assms(2) all
    by (simp add: one_at_most_def ph list_all_butlast) (simp add: settle_def finally_block_def)
qed

lemma one_at_most_handle:
  assumes "one_at_most s" "v \<noteq> Columbia0"
  shows "one_at_most (api_handle v t e s)"
proof (cases e)
  case (Ask q f)
  then show ?thesis using assms one_at_most_ask by simp
next
  case (FetchResolved i)
  then show ?thesis using assms one_at_most_resolved by simp
next
  case (FetchRejected i)
  then show ?thesis using assms one_at_most_settle[OF assms, of i "catch_block v OtherError"]
    by (auto simp: fetch_rejected_def in_phase_def catch_block_def)
next
  case (JsonParsed i d)
  then show ?thesis using assms one_at_most_settle[OF assms, of i "on_data v d"]
    by (auto simp: json_parsed_def in_phase_def on_data_def)
next
  case (JsonRejected i)
  then show ?thesis using assms one_at_most_settle[OF assms, of i "catch_block v OtherError"]
    by (auto simp: json_rejected_def in_phase_def catch_block_def)
qed

lemma one_at_most_abort:
  assumes "one_at_most s" "v \<noteq> Columbia0" "i < length (calls s)"
  shows "one_at_most (abort_timer v i s)"
proof -
  let ?s' = "set_call i ((calls s ! i)\<lparr>timeoutId := None\<rparr>) s"
  have "phases ?s' = phases s" by (rule phases_same) simp
  then have s': "one_at_most ?s'" using assms(1) by (simp add: one_at_most_def) (simp add: set_call_def)
  have len: "i < length (calls ?s')" using assms(3) by (simp add: set_call_def)
  have ph: "phase (calls ?s' ! i) = phase (calls s ! i)" using assms(3) by (simp add: set_call_def)
  show ?thesis
  proof (cases "signal (calls s ! i) \<and> phase (calls s ! i) \<noteq> Settled")
    case True
    then have "one_at_most (settle v i (catch_block v AbortError) ?s')"
      using one_at_most_settle[OF s' assms(2) len, of "catch_block v AbortError"] ph
      by (simp add: catch_block_def)
    then show ?thesis using True by (simp add: abort_timer_def Let_def)
  next
    case False
    then show ?thesis using s' by (auto simp: abort_timer_def Let_def)
  qed
qed

lemma length_calls_abort: "length (calls (abort_timer v i s)) = length (calls s)"
  by (simp add: abort_timer_def Let_def settle_def set_call_def finally_block_def catch_block_def)

lemma one_at_most_fire:
  assumes "one_at_most s" "v \<noteq> Columbia0" "\<forall>i\<in>set ks. i < length (calls s)"
  shows "one_at_most (fire_abort_timers v t ks s)"
  using assms
proof (induction ks arbitrary: s)
  case Nil
  then show ?case by simp
next
  case (Cons i ks)
  let ?s1 = "if timer_due t (timeoutId (calls s ! i)) then abort_timer v i s else s"
  have "one_at_most ?s1" using Cons.prems one_at_most_abort by simp
  moreover have "length (calls ?s1) = length (calls s)" by (simp add: length_calls_abort)
  ultimately show ?case using Cons by simp
qed

lemma one_at_most_run:
  assumes "v \<noteq> Columbia0" "one_at_most s"
  shows "one_at_most (api_run v es s)"
  using assms(2)
proof (induction es arbitrary: s)
  case Nil
  then show ?case by simp
next
  case (Cons a es)
  obtain t e where a: "a = (t, e)" by (cases a)
  have "one_at_most (api_advance v t s)"
    unfolding api_advance_def using one_at_most_fire[OF Cons.prems assms(1)] by simp
  then have "one_at_most (api_handle v t e (api_advance v t s))"
    using one_at_most_handle assms(1) by blast
  then show ?case using Cons.IH a by simp
qed

lemma in_flight_le_one:
  assumes "one_at_most s"
  shows "in_flight s \<le> 1"
proof -
  have f: "in_flight s = length (filter (\<lambda>p. p \<noteq> Settled) (phases s))"
    by (simp add: in_flight_def phases_def filter_map comp_def)
  show ?thesis
  proof (cases "phases s = []")
    case True
    then show ?thesis by (simp add: f)
  next
    case False
    then have c: "phases s = butlast (phases s) @ [last (phases s)]" by simp
    have "filter (\<lambda>p. p \<noteq> Settled) (butlast (phases s)) = []"
      using assms by (auto simp: one_at_most_def list_all_iff filter_empty_conv)
    then have "length (filter (\<lambda>p. p \<noteq> Settled) (butlast (phases s) @ [last (phases s)])) \<le> 1"
      by simp
    then show ?thesis unfolding f using c by metis
  qed
qed

lemma gated_at_most_one_in_flight:
  "v \<noteq> Columbia0 \<Longrightarrow> in_flight (api_run v es api_init) \<le> 1"
  using in_flight_le_one one_at_most_run one_at_most_init by blast

subsection \<open>The claims about the hook\<close>

text \<open>
  Claim C2. Of two submissions with no completion between them exactly one is to reach the
  fetch. \<open>GeneralApp\<close> (and \<open>Columbia1\<close>) drop the second one and are left as they were
  after the first; \<open>askQuestion\<close> of \<open>Columbia0\<close> has no guard, and there both reach the
  fetch and are in flight together.
\<close>

theorem columbia0_second_submission_reaches_fetch:
  "in_flight (api_run Columbia0 [(0, Ask q_lost_ball True), (8000, Ask q_bunker True)] api_init) = 2
   \<and> map (\<lambda>c. body_question (body c))
        (calls (api_run Columbia0 [(0, Ask q_lost_ball True), (8000, Ask q_bunker True)] api_init))
      = [q_lost_ball, q_bunker]
   \<and> api_run GeneralApp [(0, Ask q_lost_ball True), (8000, Ask q_bunker True)] api_init
      = api_run GeneralApp [(0, Ask q_lost_ball True)] api_init
   \<and> api_run Columbia1 [(0, Ask q_lost_ball True), (8000, Ask q_bunker True)] api_init
      = api_run Columbia1 [(0, Ask q_lost_ball True)] api_init
   \<and> in_flight (api_run GeneralApp [(0, Ask q_lost_ball True), (8000, Ask q_bunker True)] api_init) = 1"
  by (simp add: api_defs)

text \<open>
  Claim C7. A request is to wait ten seconds at most and then end as a timeout. In
  \<open>Columbia0\<close> the fetch has no abort timer: ten seconds after the submission nothing has
  happened, the request is still loading, and a response that comes later is shown as a
  success. \<open>GeneralApp\<close> and \<open>Columbia1\<close>, on the same events, have aborted the request
  and report \<open>Request timed out\<close>.
\<close>

theorem columbia0_request_never_times_out:
  "api_advance Columbia0 10100 (api_run Columbia0 [(0, Ask q_lost_ball True)] api_init)
      = api_run Columbia0 [(0, Ask q_lost_ball True)] api_init
   \<and> loading (api_advance Columbia0 10100 (api_run Columbia0 [(0, Ask q_lost_ball True)] api_init))
   \<and> apiError (api_advance Columbia0 10100 (api_run Columbia0 [(0, Ask q_lost_ball True)] api_init))
      = None
   \<and> response (api_run Columbia0 [(0, Ask q_lost_ball True), (10100, FetchResolved 0),
        (10200, JsonParsed 0 answer_lost_ball)] api_init) = Some answer_lost_ball
   \<and> apiError (api_run Columbia0 [(0, Ask q_lost_ball True), (10100, FetchResolved 0),
        (10200, JsonParsed 0 answer_lost_ball)] api_init) = None
   \<and> apiError (api_run GeneralApp [(0, Ask q_lost_ball True), (10100, FetchResolved 0),
        (10200, JsonParsed 0 answer_lost_ball)] api_init) = Some (js ''Request timed out'')
   \<and> response (api_run GeneralApp [(0, Ask q_lost_ball True), (10100, FetchResolved 0),
        (10200, JsonParsed 0 answer_lost_ball)] api_init) = None
   \<and> apiError (api_run Columbia1 [(0, Ask q_lost_ball True), (10100, FetchResolved 0),
        (10200, JsonParsed 0 answer_lost_ball)] api_init) = Some (js ''Request timed out'')"
  by (simp add: api_defs Let_def answer_lost_ball_success js_def)

text \<open>
  In \<open>GeneralApp\<close> and \<open>Columbia1\<close> a submission accepted at time \<open>t\<close> whose fetch has not
  settled when the clock reaches \<open>t + 10000\<close> is aborted then, and the abort is reported
  as a timeout, which is not the text of a network error.
\<close>

lemma abort_reports_timeout:
  assumes "v \<noteq> Columbia0" and "in_phase AwaitFetch i s" and "signal (calls s ! i)"
  shows "apiError (abort_timer v i s) = Some (js ''Request timed out'')"
    and "apiError (fetch_rejected v i s) = Some (js ''Network error. Please check your connection.'')"
    and "phase (calls (abort_timer v i s) ! i) = Settled"
  using assms by (simp_all add: api_defs Let_def)

lemma timeout_text_differs:
  "js ''Request timed out'' \<noteq> js ''Network error. Please check your connection.''"
  by (simp add: js_def)

text \<open>
  Claim C8. An accepted submission is to clear the answer shown before and the error.
  All variants clear the error. \<open>Columbia0\<close> sets the response to null; \<open>GeneralApp\<close> and
  \<open>Columbia1\<close> leave it, the spinner hides it while the request is loading, and when the
  request fails the answer to the question before is on the page again, next to the
  error.
\<close>

theorem general_prior_answer_survives_new_request:
  "response (api_run GeneralApp [(0, Ask q_lost_ball True), (100, FetchResolved 0),
       (200, JsonParsed 0 answer_lost_ball), (5000, Ask q_bunker True)] api_init)
     = Some answer_lost_ball
   \<and> in_flight (api_run GeneralApp [(0, Ask q_lost_ball True), (100, FetchResolved 0),
       (200, JsonParsed 0 answer_lost_ball), (5000, Ask q_bunker True)] api_init) = 1
   \<and> shown_answer (api_run GeneralApp [(0, Ask q_lost_ball True), (100, FetchResolved 0),
       (200, JsonParsed 0 answer_lost_ball), (5000, Ask q_bunker True), (6000, FetchRejected 1)]
       api_init) = Some answer_lost_ball
   \<and> shown_error (api_run GeneralApp [(0, Ask q_lost_ball True), (100, FetchResolved 0),
       (200, JsonParsed 0 answer_lost_ball), (5000, Ask q_bunker True), (6000, FetchRejected 1)]
       api_init) = Some (js ''Network error. Please check your connection.'')
   \<and> response (api_run Columbia1 [(0, Ask q_lost_ball True), (100, FetchResolved 0),
       (200, JsonParsed 0 answer_lost_ball), (5000, Ask q_bunker True)] api_init)
     = Some answer_lost_ball
   \<and> response (api_run Columbia0 [(0, Ask q_lost_ball True), (100, FetchResolved 0),
       (200, JsonParsed 0 answer_lost_ball), (5000, Ask q_bunker True)] api_init) = None"
  by (simp add: api_defs Let_def answer_lost_ball_success js_def)


section \<open>Properties of the voice hook\<close>

lemmas voice_defs = voice_init_def onstart_def onresult_def timer_callback_def onend_def
  onerror_def startListening_def stopListening_def handleStartListening_def submit_effect_def
  voice_advance_def voice_step_def timer_due_def

lemmas eval_defs = voice_defs js_trim_def is_ws_def js_def

subsection \<open>Trimming and the loop over the results\<close>



lemma scan_results_eq:
  "scan_results rs (f, i) =
     (f @ concat (map fst (filter snd rs)), i @ concat (map fst (filter (\<lambda>r. \<not> snd r) rs)))"
  by (induction rs arbitrary: f i) auto

text \<open>The handler in terms of the text the event carries.\<close>

lemma onresult_alt:
  "onresult t i rs s =
    (let acc = accumulatedTranscript s @ segment i rs; cur = acc @ interim_text i rs
     in if js_trim cur \<noteq> []
        then s\<lparr>accumulatedTranscript := acc, transcript := js_trim cur,
               submitTimeout := Some (t + 5000)\<rparr>
        else s\<lparr>accumulatedTranscript := acc\<rparr>)"
  unfolding onresult_def final_text_def interim_text_def segment_def scan_results_eq Let_def
  by (simp del: concat_eq_Nil_conv)

lemma onresults_append: "onresults (es @ fs) s = onresults fs (onresults es s)"
  by (induction es arbitrary: s) auto

lemma accumulated_onresults:
  "accumulatedTranscript (onresults es s) =
     accumulatedTranscript s @ concat (map (\<lambda>(t, i, rs). segment i rs) es)"
  by (induction es arbitrary: s) (auto simp: onresult_alt Let_def)

subsection \<open>What each step leaves alone\<close>

lemma advance_keeps:
  "hasSubmitted (voice_advance v t s) = hasSubmitted s"
  "dispatched (voice_advance v t s) = dispatched s"
  "isListening (voice_advance v t s) = isListening s"
  "transcript (voice_advance v t s) = transcript s"
  "supported (voice_advance v t s) = supported s"
  by (simp_all add: voice_advance_def timer_callback_def)





text \<open>The effect has nothing left to do once it has run.\<close>

lemma submit_effect_idem: "submit_effect (submit_effect s) = submit_effect s"
  by (simp add: submit_effect_def)

subsection \<open>Result events that keep coming\<close>








lemma fresh_session_eq:
  "fresh_session v = \<lparr>supported = True, isListening = True, transcript = [], voiceError = None,
     hasSubmitted = False, accumulatedTranscript = [], submitTimeout = None,
     started = True, stopCalls = 0, dispatched = []\<rparr>"
  by (simp add: fresh_session_def eval_defs)

subsection \<open>The claims\<close>

text \<open>
  Claim C1 says that a submission is dispatched only when the quiet-period timer expires,
  and that an explicit stop or a capture error before that submits nothing and discards the
  accumulated text. In the code the timer only calls \<open>stop()\<close>; the text is handed on by the
  effect, as soon as the hook is not listening, the transcript is not empty and the flag
  is not set. Here the user says "hello" and clicks the button again one second later:
  "hello" is submitted while the timer is still pending, and the accumulated text is kept.
\<close>

theorem explicit_stop_submits:
  "dispatched (voice_run GeneralApp [(0, MicClick), (100, RecStart),
       (1000, RecResult 0 [(js ''hello'', True)]), (2000, MicClick), (2100, RecEnd)]
       (voice_init True)) = [js ''hello'']
   \<and> submitTimeout (voice_run GeneralApp [(0, MicClick), (100, RecStart),
       (1000, RecResult 0 [(js ''hello'', True)]), (2000, MicClick), (2100, RecEnd)]
       (voice_init True)) = Some 6000
   \<and> accumulatedTranscript (voice_run GeneralApp [(0, MicClick), (100, RecStart),
       (1000, RecResult 0 [(js ''hello'', True)]), (2000, MicClick), (2100, RecEnd)]
       (voice_init True)) = js ''hello ''
   \<and> dispatched (voice_run GeneralApp [(0, MicClick), (100, RecStart),
       (1000, RecResult 0 [(js ''hello'', False)]), (2000, RecError (js ''network''))]
       (voice_init True)) = [js ''hello'']"
  by (simp add: eval_defs)

text \<open>
  Claim C1, amended. In every variant the end of the capture, by the end event or by an
  error event, hands the transcript on when it is not empty and the flag is not set, and
  nothing otherwise, whatever ended the capture. The expiry of the timer hands nothing on
  by itself, and neither does the click that stops a session: both call \<open>stop()\<close>, and the
  end event that follows submits.
\<close>

theorem submission_when_capture_ends:
  "dispatched (voice_step v t RecEnd s)
     = (if transcript s \<noteq> [] \<and> \<not> hasSubmitted s then dispatched s @ [transcript s]
        else dispatched s)
   \<and> dispatched (voice_step v t (RecError reason) s)
     = (if transcript s \<noteq> [] \<and> \<not> hasSubmitted s then dispatched s @ [transcript s]
        else dispatched s)
   \<and> dispatched (voice_advance v t s) = dispatched s
   \<and> (timer_due t (submitTimeout s) \<longrightarrow> stopCalls (voice_advance v t s) = Suc (stopCalls s))
   \<and> (isListening s \<and> supported s \<longrightarrow>
        dispatched (voice_step v t MicClick s) = dispatched s
      \<and> stopCalls (voice_step v t MicClick s) = Suc (stopCalls (voice_advance v t s)))"
  by (simp add: voice_step_def submit_effect_def advance_keeps onend_def onerror_def
      stopListening_def)
    (simp add: voice_advance_def timer_callback_def)

theorem submission_when_capture_ends_witness:
  "timer_due 7000 (submitTimeout (voice_run GeneralApp (result_events lost_ball_results)
       (fresh_session GeneralApp)))
   \<and> isListening (voice_run GeneralApp (result_events lost_ball_results) (fresh_session GeneralApp))
   \<and> supported (voice_run GeneralApp (result_events lost_ball_results) (fresh_session GeneralApp))
   \<and> dispatched (voice_step GeneralApp 3000 RecEnd
       (voice_run GeneralApp (result_events lost_ball_results) (fresh_session GeneralApp)))
     = [js ''lost ball'']
   \<and> dispatched (voice_step GeneralApp 3000 MicClick
       (voice_run GeneralApp (result_events lost_ball_results) (fresh_session GeneralApp))) = []
   \<and> stopCalls (voice_advance GeneralApp 7000
       (voice_run GeneralApp (result_events lost_ball_results) (fresh_session GeneralApp))) = 1"
proof -
  let ?s = "voice_run GeneralApp (result_events lost_ball_results) (fresh_session GeneralApp)"
  have s: "?s = \<lparr>supported = True, isListening = True, transcript = js ''lost ball'',
     voiceError = None, hasSubmitted = False, accumulatedTranscript = js ''lost ball '',
     submitTimeout = Some 7000, started = True, stopCalls = 0, dispatched = []\<rparr>"
    by (simp add: fresh_session_eq lost_ball_results_def result_events_def eval_defs)
  have h1: "timer_due 7000 (submitTimeout ?s)" by (simp add: s timer_due_def)
  have h2: "isListening ?s \<and> supported ?s" by (simp add: s)
  have n: "js ''lost ball'' \<noteq> []" by (simp add: js_def)
  have a: "stopCalls (voice_advance GeneralApp 3000 ?s) = 0"
    by (simp add: s voice_advance_def timer_due_def)
  show ?thesis
    using submission_when_capture_ends[of GeneralApp 3000 ?s "[]" ]
      submission_when_capture_ends[of GeneralApp 7000 ?s "[]"] h1 h2 n a
    by (simp add: s)
qed




text \<open>
  Claim C4 says that the exposed transcript is always the finalized segments, joined by a
  single space, followed by the latest interim text. The handler sets the transcript only
  when the combined text is not blank: here an interim result "hello" is followed by an
  interim result with no text, the claimed transcript is empty, and the exposed one is
  still "hello".
\<close>

theorem blank_event_keeps_transcript:
  "transcript (onresults [(1000, 0, [(js ''hello'', False)]), (2000, 0, [([], False)])]
       (fresh_session GeneralApp)) = js ''hello''
   \<and> claimed_transcript [(1000, 0, [(js ''hello'', False)]), (2000, 0, [([], False)])] = []
   \<and> transcript (onresults [(1000, 0, [(js ''hello'', False)]), (2000, 0, [([], False)])]
       (fresh_session GeneralApp))
     \<noteq> claimed_transcript [(1000, 0, [(js ''hello'', False)]), (2000, 0, [([], False)])]"
  by (simp add: fresh_session_eq claimed_transcript_def interim_text_def eval_defs)

text \<open>
  Claim C4, amended. Every event appends its final text, followed by one space, to the
  accumulated text when that final text is not empty; the final results of one event are
  concatenated as they are. After an event whose combined text (the accumulated text and
  the interim text of this event) is not blank, the exposed transcript is that combined
  text, trimmed; a blank one leaves the transcript as it was. The interim text of earlier
  events is not part of it.
\<close>

theorem transcript_after_results:
  "accumulatedTranscript (onresults (es @ [(t, i, rs)]) s)
     = accumulatedTranscript s @ concat (map (\<lambda>(t, i, rs). segment i rs) es) @ segment i rs
   \<and> transcript (onresults (es @ [(t, i, rs)]) s)
     = (if js_trim (accumulatedTranscript s @ concat (map (\<lambda>(t, i, rs). segment i rs) es)
                     @ segment i rs @ interim_text i rs) \<noteq> []
        then js_trim (accumulatedTranscript s @ concat (map (\<lambda>(t, i, rs). segment i rs) es)
                     @ segment i rs @ interim_text i rs)
        else transcript (onresults es s))"
  by (simp add: onresults_append onresult_alt Let_def accumulated_onresults)

text \<open>
  Claim C5. A restart after a submission is to reset the accumulated text, the interim
  text and the flag, so that the next session starts empty. The click resets the flag and
  the transcript in every variant. The accumulated text is reset by the start event in
  \<open>Columbia1\<close> only. \<open>Columbia0\<close> never resets it: after "hello" was submitted at the end of
  the quiet period, a new session in which the user says "world" exposes and submits
  "hello world". \<open>GeneralApp\<close> resets it in the timer callback only: when the first session
  was ended by a click and the user speaks again before the old timer fires, the same
  happens.
\<close>

theorem accumulated_text_survives_restart:
  "dispatched (voice_run Columbia0 [(0, MicClick), (100, RecStart),
       (1000, RecResult 0 [(js ''hello'', True)]), (6100, RecEnd), (7000, MicClick),
       (7100, RecStart), (8000, RecResult 0 [(js ''world'', True)]), (13100, RecEnd)]
       (voice_init True)) = [js ''hello'', js ''hello world'']
   \<and> accumulatedTranscript (voice_run Columbia0 [(0, MicClick), (100, RecStart),
       (1000, RecResult 0 [(js ''hello'', True)]), (6100, RecEnd), (7000, MicClick),
       (7100, RecStart)] (voice_init True)) = js ''hello ''
   \<and> dispatched (voice_run GeneralApp [(0, MicClick), (100, RecStart),
       (1000, RecResult 0 [(js ''hello'', True)]), (2000, MicClick), (2100, RecEnd),
       (3000, MicClick), (3100, RecStart), (4000, RecResult 0 [(js ''world'', True)]),
       (9100, RecEnd)] (voice_init True)) = [js ''hello'', js ''hello world'']
   \<and> dispatched (voice_run Columbia1 [(0, MicClick), (100, RecStart),
       (1000, RecResult 0 [(js ''hello'', True)]), (6100, RecEnd), (7000, MicClick),
       (7100, RecStart), (8000, RecResult 0 [(js ''world'', True)]), (13100, RecEnd)]
       (voice_init True)) = [js ''hello'', js ''world'']"
  by (simp add: eval_defs)

text \<open>
  What does hold of a restart in every variant: the click that starts a session clears
  the flag and the exposed transcript and submits nothing, and between two such clicks
  the flag goes from unset to set at most once, since only a click unsets it.
\<close>

lemma restart_resets_flag_and_transcript:
  assumes "\<not> isListening s" and "supported s"
  shows "\<not> hasSubmitted (voice_step v t MicClick s)"
    and "transcript (voice_step v t MicClick s) = []"
    and "dispatched (voice_step v t MicClick s) = dispatched s"
  using assms
  by (simp_all add: voice_step_def submit_effect_def handleStartListening_def startListening_def
      advance_keeps Let_def)

lemma start_event_resets_accumulated_text_in_Columbia1:
  "accumulatedTranscript (voice_step Columbia1 t RecStart s) = []"
  by (simp add: voice_step_def submit_effect_def onstart_def)


section \<open>Properties of the answer renderers\<close>

subsection \<open>The scan of the replacement\<close>

lemma not_prefix_append:
  assumes "\<not> prefix p u" "\<not> prefix u p"
  shows "\<not> prefix p (u @ x)"
  using assms by (metis prefix_append prefix_def)

lemma replace_all_skip:
  "skippable pat w \<Longrightarrow> replace_all pat rep (w @ x) = w @ replace_all pat rep x"
proof (induction w)
  case Nil
  then show ?case by simp
next
  case (Cons c cs)
  then have "\<not> prefix pat ((c # cs) @ x)" using not_prefix_append by (metis skippable.simps(2))
  then have "replace_all pat rep ((c # cs) @ x) = c # replace_all pat rep (cs @ x)"
    by (subst replace_all.simps) simp
  then show ?case using Cons by simp
qed

lemma replace_all_Nil [simp]: "replace_all pat rep [] = []"
  by (subst replace_all.simps) simp

lemma replace_all_match:
  "pat \<noteq> [] \<Longrightarrow> replace_all pat rep (pat @ x) = rep @ replace_all pat rep x"
  by (subst replace_all.simps) simp

lemma replace_all_no_match:
  "\<not> prefix pat (c # cs) \<Longrightarrow> replace_all pat rep (c # cs) = c # replace_all pat rep cs"
  by (subst replace_all.simps) simp

lemma pat_split: "br_between_bullets = js ''</div>'' @ js ''<br>'' @ flex_div"
  by (simp add: br_between_bullets_def flex_div_def js_def)
lemma rep_split: "no_br_between_bullets = js ''</div>'' @ flex_div"
  by (simp add: no_br_between_bullets_def flex_div_def js_def)

lemma skippable_plain: "60 \<notin> set w \<Longrightarrow> skippable br_between_bullets w"
  by (induction w) (auto simp: br_between_bullets_def js_def)

lemma skip_bullet_open: "skippable br_between_bullets bullet_open"
  by (simp add: br_between_bullets_def bullet_open_def js_def)

lemma skip_br: "skippable br_between_bullets (js ''<br>'')"
  by (simp add: br_between_bullets_def js_def)

lemma skip_span_close: "skippable br_between_bullets (js ''</span>'')"
  by (simp add: br_between_bullets_def js_def)

lemma skip_flex_div: "skippable br_between_bullets flex_div"
  by (simp add: br_between_bullets_def flex_div_def js_def)

lemma skip_div_tail: "skippable br_between_bullets (js ''/div><br>'')"
  by (simp add: br_between_bullets_def js_def)

subsection \<open>The lines of an answer without markup\<close>

lemma split_nl_nonempty [simp]: "split_nl a \<noteq> []"
  by (induction a) (auto split: list.splits)

lemma set_split_nl: "l \<in> set (split_nl a) \<Longrightarrow> set l \<subseteq> set a"
proof (induction a arbitrary: l)
  case Nil
  then show ?case by simp
next
  case (Cons c cs)
  show ?case
  proof (cases "c = NL")
    case True
    then show ?thesis using Cons by auto
  next
    case False
    obtain x xs where sp: "split_nl cs = x # xs" by (cases "split_nl cs") auto
    then have "l = c # x \<or> l \<in> set xs" using Cons.prems False by auto
    then show ?thesis
    proof
      assume "l = c # x"
      moreover have "set x \<subseteq> set cs" using Cons.IH[of x] sp by simp
      ultimately show ?thesis by auto
    next
      assume "l \<in> set xs"
      then have "set l \<subseteq> set cs" using Cons.IH[of l] sp by simp
      then show ?thesis by auto
    qed
  qed
qed

lemma set_replace_first: "set (replace_first pat [] s) \<subseteq> set s"
  by (induction s) (auto dest: in_set_dropD)

lemma bullet_close_split: "bullet_close = js ''</span>'' @ js ''</div>''"
  by (simp add: bullet_close_def js_def)

lemma bullet_open_split: "\<exists>r. bullet_open = flex_div @ r"
  by (rule exI[of _ "drop (length flex_div) bullet_open"])
     (simp add: bullet_open_def flex_div_def js_def)

lemma div_close_alone: "replace_all br_between_bullets no_br_between_bullets (js ''</div>'') = js ''</div>''"
  by (simp add: br_between_bullets_def js_def replace_all.simps)

text \<open>The joined text of lines without a \<open><\<close> starts with the opening of a bullet item only when the first line is a bullet line.\<close>

lemma join_not_flex:
  assumes "\<not> is_bullet_line m" "60 \<notin> set m"
  shows "\<not> prefix flex_div (js_join (js ''<br>'') (map format_line (m # ls)))"
proof (cases ls)
  case Nil
  have "\<not> prefix flex_div m"
    using assms(2) by (cases m) (auto simp: flex_div_def js_def)
  then show ?thesis using Nil assms by (simp add: format_line_def)
next
  case (Cons n ns)
  have "\<not> prefix flex_div (m @ js ''<br>'' @ x)" for x
    using assms(2) by (cases m) (auto simp: flex_div_def js_def)
  then show ?thesis using Cons assms by (simp add: format_line_def)
qed

lemma div_close_then:
  "replace_all br_between_bullets no_br_between_bullets (js ''</div>'' @ js ''<br>'' @ x)
    = (if prefix flex_div x
       then js ''</div>'' @ replace_all br_between_bullets no_br_between_bullets x
       else js ''</div>'' @ js ''<br>'' @ replace_all br_between_bullets no_br_between_bullets x)"
proof (cases "prefix flex_div x")
  case True
  then obtain y where x: "x = flex_div @ y" by (auto simp: prefix_def)
  have ne: "br_between_bullets \<noteq> []" by (simp add: br_between_bullets_def js_def)
  have "replace_all br_between_bullets no_br_between_bullets (js ''</div>'' @ js ''<br>'' @ x)
      = no_br_between_bullets @ replace_all br_between_bullets no_br_between_bullets y"
    using replace_all_match[OF ne, of no_br_between_bullets y] by (simp add: x pat_split)
  also have "\<dots> = js ''</div>'' @ replace_all br_between_bullets no_br_between_bullets x"
    by (simp add: x rep_split replace_all_skip[OF skip_flex_div])
  finally show ?thesis using True by simp
next
  case False
  then have "\<not> prefix br_between_bullets (js ''</div>'' @ js ''<br>'' @ x)"
    by (simp add: pat_split)
  moreover have "js ''</div>'' @ js ''<br>'' @ x = 60 # (js ''/div><br>'' @ x)"
    by (simp add: js_def)
  ultimately have "replace_all br_between_bullets no_br_between_bullets (js ''</div>'' @ js ''<br>'' @ x)
      = 60 # replace_all br_between_bullets no_br_between_bullets (js ''/div><br>'' @ x)"
    using replace_all_no_match by metis
  also have "\<dots> = 60 # js ''/div><br>'' @ replace_all br_between_bullets no_br_between_bullets x"
    by (simp add: replace_all_skip[OF skip_div_tail])
  also have "\<dots> = js ''</div>'' @ js ''<br>'' @ replace_all br_between_bullets no_br_between_bullets x"
    by (simp add: js_def)
  finally show ?thesis using False by simp
qed

lemma columbia_layout:
  assumes "\<forall>l\<in>set ls. 60 \<notin> set l"
  shows "replace_all br_between_bullets no_br_between_bullets
           (js_join (js ''<br>'') (map format_line ls)) = layout ls"
  using assms
proof (induction ls rule: layout.induct)
  case 1
  then show ?case by simp
next
  case (2 l)
  show ?case
  proof (cases "is_bullet_line l")
    case False
    then show ?thesis using 2 replace_all_skip[OF skippable_plain, of l _ "[]"]
      by (simp add: format_line_def)
  next
    case True
    let ?t = "replace_first [BULLET, SP] [] l"
    have t: "60 \<notin> set ?t" using 2 set_replace_first[of "[BULLET, SP]" l] by auto
    have "replace_all br_between_bullets no_br_between_bullets
            (bullet_open @ ?t @ js ''</span>'' @ js ''</div>'')
         = bullet_open @ ?t @ js ''</span>'' @ js ''</div>''"
      by (simp add: replace_all_skip[OF skip_bullet_open] replace_all_skip[OF skippable_plain[OF t]]
          replace_all_skip[OF skip_span_close] div_close_alone)
    then show ?thesis using True by (simp add: format_line_def bullet_close_split)
  qed
next
  case (3 l m ls)
  let ?R = "replace_all br_between_bullets no_br_between_bullets"
  let ?J = "js_join (js ''<br>'') (map format_line (m # ls))"
  have IH: "?R ?J = layout (m # ls)" using 3 by simp
  have J: "js_join (js ''<br>'') (map format_line (l # m # ls)) = format_line l @ js ''<br>'' @ ?J"
    by simp
  show ?case
  proof (cases "is_bullet_line l")
    case False
    have l: "60 \<notin> set l" using 3 by simp
    have "?R (l @ js ''<br>'' @ ?J) = l @ js ''<br>'' @ ?R ?J"
      by (simp add: replace_all_skip[OF skippable_plain[OF l]] replace_all_skip[OF skip_br])
    then show ?thesis using False IH unfolding J by (simp add: format_line_def)
  next
    case True
    let ?t = "replace_first [BULLET, SP] [] l"
    have t: "60 \<notin> set ?t" using 3 set_replace_first[of "[BULLET, SP]" l] by auto
    have step: "?R (bullet_open @ ?t @ js ''</span>'' @ js ''</div>'' @ js ''<br>'' @ ?J)
         = bullet_open @ ?t @ js ''</span>'' @ ?R (js ''</div>'' @ js ''<br>'' @ ?J)"
      by (simp add: replace_all_skip[OF skip_bullet_open] replace_all_skip[OF skippable_plain[OF t]]
          replace_all_skip[OF skip_span_close])
    have pf: "prefix flex_div ?J \<longleftrightarrow> is_bullet_line m"
    proof (cases "is_bullet_line m")
      case True
      obtain r where bo: "bullet_open = flex_div @ r" using bullet_open_split by blast
      have "format_line m @ x
          = flex_div @ (r @ replace_first [BULLET, SP] [] m @ bullet_close @ x)" for x
        using True by (simp add: format_line_def bo)
      then have "prefix flex_div (format_line m @ x)" for x by (metis prefixI)
      then show ?thesis using True by (cases ls) (simp_all, metis append_Nil2)
    next
      case False
      then show ?thesis using join_not_flex[of m ls] 3 by simp
    qed
    have fl: "format_line l = bullet_open @ ?t @ js ''</span>'' @ js ''</div>''"
      using True by (simp add: format_line_def bullet_close_split)
    have "?R (format_line l @ js ''<br>'' @ ?J)
        = bullet_open @ ?t @ js ''</span>'' @ ?R (js ''</div>'' @ js ''<br>'' @ ?J)"
      using step by (simp only: fl append_assoc)
    also have "\<dots> = bullet_open @ ?t @ js ''</span>'' @
        (if is_bullet_line m then js ''</div>'' @ ?R ?J else js ''</div>'' @ js ''<br>'' @ ?R ?J)"
      by (simp only: div_close_then pf)
    also have "\<dots> = format_line l
        @ (if is_bullet_line l \<and> is_bullet_line m then [] else js ''<br>'') @ layout (m # ls)"
      using True by (simp only: IH fl) simp
    finally show ?thesis by (simp only: J layout.simps)
  qed
qed

subsection \<open>The general renderer, and markup in an answer\<close>

lemma replace_all_single:
  "replace_all [c] rep s = concat (map (\<lambda>x. if x = c then rep else [x]) s)"
proof (induction s)
  case Nil
  then show ?case by simp
next
  case (Cons x xs)
  then show ?case by (subst replace_all.simps) auto
qed

lemma format_general_chars: "format_general a = concat (map html_char a)"
  unfolding format_general_def replace_all_single
  by (induction a) (auto simp: html_char_def js_def)

lemma html_char_plain: "NL \<notin> set m \<Longrightarrow> BULLET \<notin> set m \<Longrightarrow> concat (map html_char m) = m"
  by (induction m) (auto simp: html_char_def)

lemma format_general_verbatim:
  "NL \<notin> set m \<Longrightarrow> BULLET \<notin> set m \<Longrightarrow>
     format_general (a @ m @ b) = format_general a @ m @ format_general b"
  by (simp add: format_general_chars html_char_plain)

lemma deleted_br_keep_all: "deleted_br s t \<Longrightarrow> deleted_br (w @ s) (w @ t)"
  by (induction w) (auto intro: deleted_br.keep)

lemma deleted_br_replace_all:
  "deleted_br s (replace_all br_between_bullets no_br_between_bullets s)"
proof (induction br_between_bullets no_br_between_bullets s rule: replace_all.induct)
  case (1 s)
  let ?R = "replace_all br_between_bullets no_br_between_bullets"
  show ?case
  proof (cases "s = []")
    case True
    then show ?thesis by (simp add: deleted_br.nil)
  next
    case False
    note ne = False
    show ?thesis
    proof (cases "prefix br_between_bullets s")
      case True
      then obtain x where s: "s = br_between_bullets @ x" by (auto simp: prefix_def)
      have pne: "br_between_bullets \<noteq> []" by (simp add: br_between_bullets_def js_def)
      have "deleted_br (drop (length br_between_bullets) s) (?R (drop (length br_between_bullets) s))"
        using 1(1)[OF ne] True pne by simp
      then have "deleted_br x (?R x)" by (simp add: s)
      then have "deleted_br (flex_div @ x) (flex_div @ ?R x)" by (rule deleted_br_keep_all)
      then have "deleted_br (js ''<br>'' @ flex_div @ x) (flex_div @ ?R x)" by (rule deleted_br.cut)
      then have "deleted_br (js ''</div>'' @ js ''<br>'' @ flex_div @ x) (js ''</div>'' @ flex_div @ ?R x)"
        by (rule deleted_br_keep_all)
      moreover have "?R s = js ''</div>'' @ flex_div @ ?R x"
        using replace_all_match[OF pne, of no_br_between_bullets x] by (simp add: s rep_split)
      ultimately show ?thesis by (simp add: s pat_split)
    next
      case False
      then have "deleted_br (tl s) (?R (tl s))" using 1(2)[OF ne] by simp
      then have "deleted_br (hd s # tl s) (hd s # ?R (tl s))" by (rule deleted_br.keep)
      moreover have "?R s = hd s # ?R (tl s)"
        using ne False replace_all_no_match[of br_between_bullets "hd s" "tl s"] by simp
      ultimately show ?thesis using ne by simp
    qed
  qed
qed


text \<open>A tag that holds no line break is not touched by the deletions.\<close>

lemma br_prefix_tag_suffix:
  assumes "w \<noteq> []" "last w = 62" "\<not> sublist (js ''<br>'') w"
  shows "\<not> prefix (js ''<br>'') (w @ q)"
proof
  assume p: "prefix (js ''<br>'') (w @ q)"
  have pw: "prefix w (w @ q)" by simp
  have len: "length (js ''<br>'') = 4" by (simp add: js_def)
  show False
  proof (cases "4 \<le> length w")
    case True
    then have "prefix (js ''<br>'') w" using prefix_length_prefix[OF p pw] len by simp
    then show False using assms(3) by (simp add: prefix_imp_sublist)
  next
    case False
    then have "prefix w (js ''<br>'')" using prefix_length_prefix[OF pw p] len by simp
    then show False using assms(1,2) False
      by (auto simp: js_def prefix_Cons)
  qed
qed

lemma deleted_br_tail:
  assumes "deleted_br x t" "x = w @ q" "w = [] \<or> (last w = 62 \<and> \<not> sublist (js ''<br>'') w)"
  shows "\<exists>q'. t = w @ q'"
  using assms
proof (induction arbitrary: w rule: deleted_br.induct)
  case nil
  then show ?case by simp
next
  case (keep s t c)
  show ?case
  proof (cases w)
    case Nil
    then show ?thesis by simp
  next
    case (Cons d w')
    then have s: "s = w' @ q" and c: "c = d" using keep.prems by auto
    have "w' = [] \<or> (last w' = 62 \<and> \<not> sublist (js ''<br>'') w')"
      using keep.prems(2) Cons by (auto simp: sublist_Cons_right split: if_splits)
    then obtain q' where "t = w' @ q'" using keep.IH[OF s] by blast
    then show ?thesis using Cons c by simp
  qed
next
  case (cut s t)
  show ?case
  proof (cases w)
    case Nil
    then show ?thesis by simp
  next
    case (Cons d w')
    then have "\<not> prefix (js ''<br>'') (w @ q)"
      using br_prefix_tag_suffix[of w q] cut.prems(2) by auto
    then show ?thesis using cut.prems(1) by (metis prefixI)
  qed
qed

lemma deleted_br_tag:
  assumes "deleted_br x t" "x = p @ m @ q" "is_tag m" "\<not> sublist (js ''<br>'') m"
  shows "\<exists>p' q'. t = p' @ m @ q'"
  using assms
proof (induction arbitrary: p rule: deleted_br.induct)
  case nil
  then show ?case by (simp add: is_tag_def)
next
  case (keep s t c)
  show ?case
  proof (cases p)
    case Nil
    then have "c # s = m @ q" using keep.prems by simp
    moreover have "deleted_br (c # s) (c # t)" using keep.hyps by (rule deleted_br.keep)
    ultimately obtain q' where "c # t = m @ q'"
      using deleted_br_tail[of "c # s" "c # t" m q] keep.prems by (auto simp: is_tag_def)
    then show ?thesis by (metis append_Nil)
  next
    case (Cons d p')
    then have "s = p' @ m @ q" using keep.prems by simp
    then obtain p'' q' where "t = p'' @ m @ q'" using keep.IH keep.prems by blast
    then have "c # t = (c # p'') @ m @ q'" by simp
    then show ?thesis by blast
  qed
next
  case (cut s t)
  have len: "length (js ''<br>'') = 4" by (simp add: js_def)
  have br: "js ''<br>'' = [60, 98, 114, 62]" by (simp add: js_def)
  have m: "m \<noteq> []" "hd m = 60" "last m = 62" using cut.prems by (auto simp: is_tag_def)
  have np: "\<not> prefix (js ''<br>'') (m @ q)"
    using br_prefix_tag_suffix[of m q] m cut.prems by simp
  show ?case
  proof (cases "4 \<le> length p")
    case True
    have "prefix (js ''<br>'') p"
      using prefix_length_prefix[of "js ''<br>''" "p @ m @ q" p] cut.prems(1) len True
      by (metis prefixI)
    then obtain p0 where p: "p = js ''<br>'' @ p0" by (auto simp: prefix_def)
    then have "s = p0 @ m @ q" using cut.prems(1) by simp
    then show ?thesis using cut.IH cut.prems by blast
  next
    case False
    have e: "[60, 98, 114, 62] @ s = p @ m @ q" using cut.prems(1) br by simp
    obtain h m' where mc: "m = 60 # m'" using m by (cases m) auto
    have "p = []"
    proof (rule ccontr)
      assume "p \<noteq> []"
      then have "0 < length p" by simp
      then have "length p = 1 \<or> length p = 2 \<or> length p = 3" using False by arith
      then consider (a) "length p = 1" | (b) "length p = 2" | (c) "length p = 3" by blast
      then show False
      proof cases
        case a
        then obtain x where "p = [x]" by (cases p) auto
        then show False using e mc by simp
      next
        case b
        then obtain x y where "p = [x, y]" by (cases p; cases "tl p") auto
        then show False using e mc by simp
      next
        case c
        then obtain x y z where "p = [x, y, z]"
          by (cases p; cases "tl p"; cases "tl (tl p)") auto
        then show False using e mc by simp
      qed
    qed
    then have "prefix (js ''<br>'') (m @ q)" using cut.prems(1) by (metis append_Nil prefixI)
    then show ?thesis using np by simp
  qed
qed

lemma split_nl_plain_prefix:
  "NL \<notin> set m \<Longrightarrow> \<exists>v ls. split_nl (m @ b) = (m @ v) # ls"
proof (induction m)
  case Nil
  then show ?case by (cases "split_nl b") auto
next
  case (Cons c m)
  then obtain v ls where "split_nl (m @ b) = (m @ v) # ls" by auto
  then show ?case using Cons.prems by auto
qed

lemma split_nl_holds_line:
  "NL \<notin> set m \<Longrightarrow> \<exists>ls1 u v ls2. split_nl (a @ m @ b) = ls1 @ [u @ m @ v] @ ls2"
proof (induction a)
  case Nil
  then obtain v ls where "split_nl (m @ b) = (m @ v) # ls" using split_nl_plain_prefix by blast
  then have "split_nl ([] @ m @ b) = [] @ [[] @ m @ v] @ ls" by simp
  then show ?case by blast
next
  case (Cons c cs)
  then obtain ls1 u v ls2 where IH: "split_nl (cs @ m @ b) = ls1 @ [u @ m @ v] @ ls2" by blast
  show ?case
  proof (cases "c = NL")
    case True
    then have "split_nl ((c # cs) @ m @ b) = ([] # ls1) @ [u @ m @ v] @ ls2" using IH by simp
    then show ?thesis by blast
  next
    case False
    show ?thesis
    proof (cases ls1)
      case Nil
      then have "split_nl ((c # cs) @ m @ b) = [] @ [(c # u) @ m @ v] @ ls2"
        using IH False by simp
      then show ?thesis by blast
    next
      case (Cons x xs)
      then have "split_nl ((c # cs) @ m @ b) = ((c # x) # xs) @ [u @ m @ v] @ ls2"
        using IH False by simp
      then show ?thesis by blast
    qed
  qed
qed

lemma replace_first_plain_prefix:
  "BULLET \<notin> set w \<Longrightarrow> replace_first [BULLET, SP] [] (w @ v) = w @ replace_first [BULLET, SP] [] v"
  by (induction w) auto

lemma replace_first_no_match:
  "\<not> prefix pat (c # cs) \<Longrightarrow> replace_first pat rep (c # cs) = c # replace_first pat rep cs"
  by simp

lemma replace_first_keeps_tag:
  assumes "BULLET \<notin> set m" "m \<noteq> []" "hd m \<noteq> SP"
  shows "\<exists>u' v'. replace_first [BULLET, SP] [] (u @ m @ v) = u' @ m @ v'"
proof (induction u)
  case Nil
  have "replace_first [BULLET, SP] [] (m @ v) = [] @ m @ replace_first [BULLET, SP] [] v"
    using replace_first_plain_prefix[OF assms(1)] by simp
  then show ?case by (metis append_Nil)
next
  case (Cons c u)
  then obtain u' v' where IH: "replace_first [BULLET, SP] [] (u @ m @ v) = u' @ m @ v'" by blast
  show ?case
  proof (cases "prefix [BULLET, SP] ((c # u) @ m @ v)")
    case True
    then have c: "c = BULLET" and p: "prefix [SP] (u @ m @ v)" by auto
    have "u \<noteq> []" using p assms(2,3) by (cases m) auto
    then obtain u0 where u: "u = SP # u0" using p by (cases u) auto
    have "replace_first [BULLET, SP] [] ((c # u) @ m @ v) = u0 @ m @ v"
      using c u by simp
    then show ?thesis by blast
  next
    case False
    then have "\<not> prefix [BULLET, SP] (c # (u @ m @ v))" by simp
    then have "replace_first [BULLET, SP] [] (c # (u @ m @ v))
        = c # replace_first [BULLET, SP] [] (u @ m @ v)"
      by (rule replace_first_no_match)
    then have "replace_first [BULLET, SP] [] ((c # u) @ m @ v) = (c # u') @ m @ v'"
      using IH by simp
    then show ?thesis by blast
  qed
qed

lemma format_line_keeps_tag:
  assumes "BULLET \<notin> set m" "m \<noteq> []" "hd m \<noteq> SP"
  shows "\<exists>u' v'. format_line (u @ m @ v) = u' @ m @ v'"
proof (cases "is_bullet_line (u @ m @ v)")
  case True
  obtain u' v' where "replace_first [BULLET, SP] [] (u @ m @ v) = u' @ m @ v'"
    using replace_first_keeps_tag[OF assms] by blast
  then have "format_line (u @ m @ v) = (bullet_open @ u') @ m @ (v' @ bullet_close)"
    using True by (simp add: format_line_def)
  then show ?thesis by blast
next
  case False
  then show ?thesis by (auto simp: format_line_def)
qed

lemma js_join_holds:
  "\<exists>p q. js_join sep (xs @ [x] @ ys) = p @ x @ q"
proof (induction xs)
  case Nil
  show ?case
  proof (cases ys)
    case Nil
    then have "js_join sep ([] @ [x] @ ys) = [] @ x @ []" by simp
    then show ?thesis by blast
  next
    case (Cons y ys')
    then have "js_join sep ([] @ [x] @ ys) = [] @ x @ (sep @ js_join sep ys)" by simp
    then show ?thesis by blast
  qed
next
  case (Cons z zs)
  then obtain p q where IH: "js_join sep (zs @ [x] @ ys) = p @ x @ q" by blast
  have "zs @ [x] @ ys \<noteq> []" by simp
  then obtain h t where ht: "zs @ [x] @ ys = h # t" by (cases "zs @ [x] @ ys") auto
  have "js_join sep ((z # zs) @ [x] @ ys) = z @ sep @ js_join sep (zs @ [x] @ ys)"
    using ht by simp
  then have "js_join sep ((z # zs) @ [x] @ ys) = (z @ sep @ p) @ x @ q" using IH by simp
  then show ?case by blast
qed

lemma format_columbia_keeps_tag:
  assumes "is_tag m" "NL \<notin> set m" "BULLET \<notin> set m" "\<not> sublist (js ''<br>'') m"
  shows "sublist m (format_columbia (a @ m @ b))"
proof -
  have m: "m \<noteq> []" "hd m \<noteq> SP" using assms(1) by (auto simp: is_tag_def)
  obtain ls1 u v ls2 where sp: "split_nl (a @ m @ b) = ls1 @ [u @ m @ v] @ ls2"
    using split_nl_holds_line[OF assms(2)] by blast
  obtain u' v' where fl: "format_line (u @ m @ v) = u' @ m @ v'"
    using format_line_keeps_tag[OF assms(3) m] by blast
  have "map format_line (split_nl (a @ m @ b))
      = map format_line ls1 @ [u' @ m @ v'] @ map format_line ls2"
    using sp fl by simp
  then obtain p q where
    "js_join (js ''<br>'') (map format_line (split_nl (a @ m @ b))) = p @ (u' @ m @ v') @ q"
    using js_join_holds[of "js ''<br>''" "map format_line ls1" "u' @ m @ v'" "map format_line ls2"]
    by auto
  then have J: "js_join (js ''<br>'') (map format_line (split_nl (a @ m @ b)))
      = (p @ u') @ m @ (v' @ q)" by simp
  obtain p' q' where "format_columbia (a @ m @ b) = p' @ m @ q'"
    unfolding format_columbia_def
    using deleted_br_tag[OF deleted_br_replace_all J assms(1,4)] by blast
  then show ?thesis by (auto simp: sublist_def)
qed

subsection \<open>Splitting is the inverse of joining with newlines\<close>

lemma split_nl_plain_line: "NL \<notin> set x \<Longrightarrow> split_nl (x @ NL # r) = x # split_nl r"
  by (induction x) auto

lemma split_nl_plain: "NL \<notin> set x \<Longrightarrow> split_nl x = [x]"
  by (induction x) auto

lemma split_nl_join:
  assumes "ls \<noteq> []" and "\<forall>l\<in>set ls. NL \<notin> set l"
  shows "split_nl (js_join [NL] ls) = ls"
  using assms
proof (induction "[NL]" ls rule: js_join.induct)
  case 1
  then show ?case by simp
next
  case (2 x)
  then show ?case by (simp add: split_nl_plain)
next
  case (3 x y ys)
  then have "split_nl (js_join [NL] (y # ys)) = y # ys" by simp
  then show ?case using 3 by (simp add: split_nl_plain_line)
qed

lemma set_js_join: "set (js_join sep ls) \<subseteq> set sep \<union> \<Union> (set ` set ls)"
  by (induction sep ls rule: js_join.induct) auto

subsection \<open>The claims\<close>

text \<open>
  Claim C9 says of the answer renderer that it turns bullet lines into bullet items and
  joins neighbouring bullet lines without a line break. \<open>RulesResponse\<close> of \<open>GeneralApp\<close>
  does neither: on the example of the specification it puts a line break between the two
  bullet lines, as between all lines, and writes the bullet as an entity in front of the
  text. \<open>ColumbiaRulesResponse\<close> takes out line breaks by a replacement on the joined
  text, which also takes out the break between a line that is no bullet line and ends
  with \<open></div>\<close> and a bullet line behind it.
\<close>

theorem general_renderer_breaks_between_bullets:
  "format_answer GeneralApp bulleted_answer
     = js ''line one<br>&bull; item a<br>&bull; item b<br>line two''
   \<and> \<not> is_bullet_line (js ''x</div>'')
   \<and> format_answer Columbia1 (js ''x</div>'' @ [NL] @ [BULLET, SP] @ js ''a'')
     = js ''x</div>'' @ bullet_open @ js ''a'' @ bullet_close"
proof -
  have "format_answer GeneralApp bulleted_answer
     = js ''line one<br>&bull; item a<br>&bull; item b<br>line two''"
    by (simp add: format_answer_def format_general_chars html_char_def bulleted_answer_def
        js_def)
  moreover have "\<not> is_bullet_line (js ''x</div>'')"
    by (simp add: is_bullet_line_def js_trim_def is_ws_def js_def)
  moreover have "format_answer Columbia1 (js ''x</div>'' @ [NL] @ [BULLET, SP] @ js ''a'')
     = js ''x</div>'' @ bullet_open @ js ''a'' @ bullet_close"
    by (simp add: format_answer_def format_columbia_def format_line_def is_bullet_line_def
        js_trim_def is_ws_def bullet_open_def bullet_close_def br_between_bullets_def
        no_br_between_bullets_def js_def replace_all.simps)
  ultimately show ?thesis by simp
qed

text \<open>
  Claim C9, amended. \<open>ColumbiaRulesResponse\<close> (both Columbia variants), on an answer made
  of lines that hold no \<open><\<close>: the answer is split into these lines; a line whose trimmed
  text starts with the bullet and a space becomes a bullet item, any other line stays as
  it is; two neighbouring lines are separated by one line break, unless both are bullet
  lines, which follow each other with nothing between. On the example: a plain line, a
  line break, the two bullet items with no break between, a line break, a plain line.
  \<open>RulesResponse\<close> replaces every newline by a line break and every bullet by the bullet
  entity, and nothing else.
\<close>

theorem columbia_joins_bullet_lines:
  "(v \<noteq> GeneralApp \<and> ls \<noteq> [] \<and> (\<forall>l\<in>set ls. NL \<notin> set l \<and> 60 \<notin> set l) \<longrightarrow>
       split_nl (js_join [NL] ls) = ls \<and> format_answer v (js_join [NL] ls) = layout ls)
   \<and> format_answer Columbia0 bulleted_answer
       = js ''line one<br>'' @ bullet_open @ js ''item a'' @ bullet_close
           @ bullet_open @ js ''item b'' @ bullet_close @ js ''<br>line two''
   \<and> format_answer Columbia1 bulleted_answer = format_answer Columbia0 bulleted_answer
   \<and> format_answer GeneralApp a = concat (map html_char a)"
proof -
  have general: "split_nl (js_join [NL] ls) = ls \<and> format_answer v (js_join [NL] ls) = layout ls"
    if v: "v \<noteq> GeneralApp" and ne: "ls \<noteq> []"
      and plain: "\<forall>l\<in>set ls. NL \<notin> set l \<and> 60 \<notin> set l" for v ls
  proof -
    have sp: "split_nl (js_join [NL] ls) = ls" using split_nl_join[OF ne] plain by blast
    have "format_columbia (js_join [NL] ls) = layout ls"
      unfolding format_columbia_def sp using plain by (intro columbia_layout) blast
    then show ?thesis using sp v by (simp add: format_answer_def)
  qed
  have ex: "bulleted_answer = js_join [NL] bulleted_lines"
    by (simp add: bulleted_answer_def bulleted_lines_def)
  have lines: "bulleted_lines \<noteq> [] \<and> (\<forall>l\<in>set bulleted_lines. NL \<notin> set l \<and> 60 \<notin> set l)"
    by (simp add: bulleted_lines_def js_def)
  have lay: "layout bulleted_lines
       = js ''line one<br>'' @ bullet_open @ js ''item a'' @ bullet_close
           @ bullet_open @ js ''item b'' @ bullet_close @ js ''<br>line two''"
    by (simp add: bulleted_lines_def format_line_def is_bullet_line_def js_trim_def is_ws_def
        js_def)
  have c0: "format_answer Columbia0 bulleted_answer = layout bulleted_lines"
    using general[of Columbia0 bulleted_lines] lines ex by simp
  have c1: "format_answer Columbia1 bulleted_answer = layout bulleted_lines"
    using general[of Columbia1 bulleted_lines] lines ex by simp
  have g: "format_answer GeneralApp a = concat (map html_char a)"
    by (simp add: format_answer_def format_general_chars)
  have gen: "v \<noteq> GeneralApp \<and> ls \<noteq> [] \<and> (\<forall>l\<in>set ls. NL \<notin> set l \<and> 60 \<notin> set l) \<longrightarrow>
       split_nl (js_join [NL] ls) = ls \<and> format_answer v (js_join [NL] ls) = layout ls"
    using general by blast
  have c01: "format_answer Columbia1 bulleted_answer = format_answer Columbia0 bulleted_answer"
    using c0 c1 by simp
  show ?thesis using gen c0 c01 g by (simp only: lay)
qed

theorem columbia_joins_bullet_lines_witness:
  "Columbia1 \<noteq> GeneralApp \<and> bulleted_lines \<noteq> []
   \<and> list_all (\<lambda>l. NL \<notin> set l \<and> 60 \<notin> set l) bulleted_lines
   \<and> split_nl (js_join [NL] bulleted_lines) = bulleted_lines
   \<and> format_answer Columbia1 (js_join [NL] bulleted_lines) = layout bulleted_lines
   \<and> layout bulleted_lines
       = js ''line one<br>'' @ bullet_open @ js ''item a'' @ bullet_close
           @ bullet_open @ js ''item b'' @ bullet_close @ js ''<br>line two''"
proof -
  have h: "bulleted_lines \<noteq> [] \<and> (\<forall>l\<in>set bulleted_lines. NL \<notin> set l \<and> 60 \<notin> set l)"
    by (simp add: bulleted_lines_def js_def)
  have lay: "layout bulleted_lines
       = js ''line one<br>'' @ bullet_open @ js ''item a'' @ bullet_close
           @ bullet_open @ js ''item b'' @ bullet_close @ js ''<br>line two''"
    by (simp add: bulleted_lines_def format_line_def is_bullet_line_def js_trim_def is_ws_def
        js_def)
  show ?thesis
    using columbia_joins_bullet_lines[of Columbia1 bulleted_lines "[]"] h lay
    by (simp add: list_all_iff)
qed

text \<open>
  Claim C10 says that any markup of the answer stands in the rendered text as it is. The
  replacement with which \<open>ColumbiaRulesResponse\<close> takes out the line breaks between bullet
  items works on the text, and so it also takes out a line break that the answer itself
  holds between \<open></div>\<close> and \<open><div style="display: flex\<close>: the answer has a \<open><br>\<close>, and
  what both Columbia variants render has none.
\<close>

theorem columbia_drops_br_of_answer:
  "format_answer Columbia0 div_br_answer = div_br_rendered
   \<and> format_answer Columbia1 div_br_answer = div_br_rendered
   \<and> sublist (js ''<br>'') div_br_answer
   \<and> \<not> sublist (js ''<br>'') (format_answer Columbia0 div_br_answer)
   \<and> \<not> sublist (js ''<br>'') (format_answer Columbia1 div_br_answer)"
proof -
  have c: "format_columbia div_br_answer = div_br_rendered"
    by (simp add: format_columbia_def format_line_def is_bullet_line_def
        js_trim_def is_ws_def br_between_bullets_def no_br_between_bullets_def
        div_br_answer_def div_br_rendered_def js_def replace_all.simps)
  have s1: "sublist (js ''<br>'') div_br_answer"
    by (simp add: div_br_answer_def js_def sublist_Cons_right)
  have s2: "\<not> sublist (js ''<br>'') div_br_rendered"
    by (simp add: div_br_rendered_def js_def sublist_Cons_right)
  show ?thesis using c s1 s2 by (simp add: format_answer_def)
qed

text \<open>
  Claim C10, amended. The renderers do not escape the answer. In \<open>RulesResponse\<close> every piece of
  the answer that holds neither a newline nor a bullet stands in the text given to
  \<open>dangerouslySetInnerHTML\<close> as it is, between the renderings of what is before and behind
  it. In every variant a piece of markup of the answer (from a \<open><\<close> to a \<open>>\<close> on one line,
  with no bullet in it and other than a line break) stands in that text as it is.
\<close>

theorem answer_markup_verbatim:
  "(NL \<notin> set m \<and> BULLET \<notin> set m \<longrightarrow>
      format_answer GeneralApp (a @ m @ b)
        = format_answer GeneralApp a @ m @ format_answer GeneralApp b)
   \<and> (is_tag m \<and> NL \<notin> set m \<and> BULLET \<notin> set m \<and> \<not> sublist (js ''<br>'') m \<longrightarrow>
      sublist m (format_answer v (a @ m @ b)))"
proof -
  have g: "NL \<notin> set m \<Longrightarrow> BULLET \<notin> set m \<Longrightarrow>
      format_general (a @ m @ b) = format_general a @ m @ format_general b"
    by (rule format_general_verbatim)
  then have "NL \<notin> set m \<Longrightarrow> BULLET \<notin> set m \<Longrightarrow> sublist m (format_general (a @ m @ b))"
    by (simp add: sublist_def) blast
  then show ?thesis
    using g format_columbia_keeps_tag[of m a b] by (cases v) (auto simp: format_answer_def)
qed

theorem answer_markup_verbatim_witness:
  "is_tag img_tag \<and> NL \<notin> set img_tag \<and> BULLET \<notin> set img_tag
   \<and> \<not> sublist (js ''<br>'') img_tag
   \<and> format_answer GeneralApp (js ''See '' @ img_tag @ [NL] @ js ''below'')
       = js ''See <img src=x onerror=alert(1)><br>below''
   \<and> sublist img_tag (format_answer Columbia1 ([BULLET, SP] @ js ''See '' @ img_tag @ [NL] @ js ''below''))"
proof -
  have h1: "is_tag img_tag" by (simp add: is_tag_def img_tag_def js_def)
  have h2: "NL \<notin> set img_tag \<and> BULLET \<notin> set img_tag" by (simp add: img_tag_def js_def)
  have h3: "\<not> sublist (js ''<br>'') img_tag"
    by (simp add: img_tag_def js_def sublist_Cons_right)
  have g1: "format_answer GeneralApp (js ''See '') = js ''See ''"
    by (simp add: format_answer_def format_general_chars html_char_def js_def)
  have g2: "format_answer GeneralApp ([NL] @ js ''below'') = js ''<br>below''"
    by (simp add: format_answer_def format_general_chars html_char_def js_def)
  have e: "js ''See '' @ img_tag @ js ''<br>below'' = js ''See <img src=x onerror=alert(1)><br>below''"
    by (simp add: img_tag_def js_def)
  show ?thesis
    using answer_markup_verbatim[of img_tag "js ''See ''" "[NL] @ js ''below''" Columbia1]
      answer_markup_verbatim[of img_tag "[BULLET, SP] @ js ''See ''" "[NL] @ js ''below''" Columbia1]
      h1 h2 h3 g1 g2 e
    by simp
qed


end
